theory Spec2Isabelle
  imports Complex_Main "HOL-Library.Word"
begin

section \<open>Backend records (proxy/proxy.go)\<close>

text \<open>
  A \<open>Backend\<close> holds the parsed address, the liveness flag, the weight and the number of
  requests in flight. The \<open>Proxy\<close> field (the forwarding transport) and the mutex carry no
  data the routing decisions read, so they are not fields of the record. Go's \<open>int\<close> is
  modelled as \<open>int\<close>: \<open>Connections\<close> counts the requests in flight and \<open>Weight\<close> is a
  configured constant, both far from the bounds of a machine word. The round-robin cursor
  is a \<open>uint32\<close> that does reach its bound, so it is a \<open>32 word\<close>.

  All backends live in one pool, the slice \<open>rp.backends\<close>; the balancers and the health
  checker hold slices of pointers into it. A pointer is modelled as the position of the
  record in the pool.
\<close>

record Backend =
  URL :: string
  Alive :: bool
  Weight :: int
  Connections :: int

definition IsAlive :: "Backend \<Rightarrow> bool" where
  "IsAlive b = Alive b"

definition SetAlive :: "Backend \<Rightarrow> bool \<Rightarrow> Backend" where
  "SetAlive b alive = b\<lparr>Alive := alive\<rparr>"

definition GetConnections :: "Backend \<Rightarrow> int" where
  "GetConnections b = Connections b"

section \<open>Load balancers (proxy/load_balancer.go)\<close>

datatype panic = IntegerDivideByZero

record RoundRobinBalancer =
  rb_backends :: "nat list"
  rb_current :: "32 word"

record LeastConnectionsBalancer =
  lb_backends :: "nat list"

record WeightedBalancer =
  wb_backends :: "nat list"
  wb_current :: "32 word"

definition NewRoundRobinBalancer :: "nat list \<Rightarrow> RoundRobinBalancer" where
  "NewRoundRobinBalancer backends = \<lparr>rb_backends = backends, rb_current = 0\<rparr>"

definition NewLeastConnectionsBalancer :: "nat list \<Rightarrow> LeastConnectionsBalancer" where
  "NewLeastConnectionsBalancer backends = \<lparr>lb_backends = backends\<rparr>"

definition NewWeightedBalancer :: "nat list \<Rightarrow> WeightedBalancer" where
  "NewWeightedBalancer backends = \<lparr>wb_backends = backends, wb_current = 0\<rparr>"

text \<open>
  The scanning loop \<open>for i := 0; i < n; i++\<close> of the round-robin and of the weighted
  balancer, which is the same text in both: \<open>k\<close> is the number of iterations left,
  \<open>atomic.AddUint32\<close> adds one to the cursor modulo \<open>2 ^ 32\<close> and returns the new value, and
  \<open>uint32(n)\<close> keeps the low 32 bits of the length. The remainder by zero panics in Go.
  The result is the cursor after the call and either the panic, \<open>nil\<close> (\<open>None\<close>) or the
  pointer returned.
\<close>

fun scan :: "Backend list \<Rightarrow> nat list \<Rightarrow> nat \<Rightarrow> 32 word \<Rightarrow> 32 word \<times> (panic + nat option)" where
  "scan pool backends 0 current = (current, Inr None)"
| "scan pool backends (Suc k) current =
     (let current' = current + 1 in
      if (of_nat (length backends) :: 32 word) = 0 then (current', Inl IntegerDivideByZero)
      else
        let idx = unat (current' mod of_nat (length backends));
            backend = backends ! idx
        in if IsAlive (pool ! backend) then (current', Inr (Some backend))
           else scan pool backends k current')"

definition RoundRobin_NextBackend ::
  "Backend list \<Rightarrow> RoundRobinBalancer \<Rightarrow> RoundRobinBalancer \<times> (panic + nat option)" where
  "RoundRobin_NextBackend pool rb =
     (let n = length (rb_backends rb) in
      if n = 0 then (rb, Inr None)
      else case scan pool (rb_backends rb) n (rb_current rb) of
             (current', r) \<Rightarrow> (rb\<lparr>rb_current := current'\<rparr>, r))"

text \<open>
  The least-connections scan: \<open>selected\<close> starts as \<open>nil\<close> and \<open>minConnections\<close> as \<open>-1\<close>.
\<close>

fun lc_loop :: "Backend list \<Rightarrow> nat list \<Rightarrow> nat option \<Rightarrow> int \<Rightarrow> nat option" where
  "lc_loop pool [] selected minConnections = selected"
| "lc_loop pool (backend # rest) selected minConnections =
     (if \<not> IsAlive (pool ! backend) then lc_loop pool rest selected minConnections
      else
        let connections = GetConnections (pool ! backend)
        in if minConnections = -1 \<or> connections < minConnections
           then lc_loop pool rest (Some backend) connections
           else lc_loop pool rest selected minConnections)"

definition LeastConnections_NextBackend ::
  "Backend list \<Rightarrow> LeastConnectionsBalancer \<Rightarrow> nat option" where
  "LeastConnections_NextBackend pool lb = lc_loop pool (lb_backends lb) None (-1)"

text \<open>
  The weighted balancer first builds \<open>expandedBackends\<close>: every pointer repeated \<open>Weight\<close>
  times (no times when the weight is zero or negative), in pool order.
\<close>

fun expand :: "Backend list \<Rightarrow> nat list \<Rightarrow> nat list" where
  "expand pool [] = []"
| "expand pool (backend # rest) = replicate (nat (Weight (pool ! backend))) backend @ expand pool rest"

definition Weighted_NextBackend ::
  "Backend list \<Rightarrow> WeightedBalancer \<Rightarrow> WeightedBalancer \<times> (panic + nat option)" where
  "Weighted_NextBackend pool wb =
     (let expandedBackends = expand pool (wb_backends wb);
          n = length expandedBackends
      in if n = 0 then (wb, Inr None)
         else case scan pool expandedBackends n (wb_current wb) of
                (current', r) \<Rightarrow> (wb\<lparr>wb_current := current'\<rparr>, r))"

section \<open>Health checker (proxy/health_check.go)\<close>

text \<open>
  What one probe can end in: \<open>http.NewRequestWithContext\<close> fails, \<open>client.Do\<close> fails
  (connection error or timeout), or a response arrives with a status code.
\<close>

datatype probe = RequestError | DoError | Response int

fun check :: "probe \<Rightarrow> Backend \<Rightarrow> Backend" where
  "check RequestError backend = SetAlive backend False"
| "check DoError backend = SetAlive backend False"
| "check (Response StatusCode) backend =
     (if StatusCode \<ge> 200 \<and> StatusCode < 300 then SetAlive backend True
      else SetAlive backend False)"

section \<open>The routing core (proxy/proxy.go)\<close>

record BackendConfig =
  cfg_URL :: string
  cfg_Weight :: int

record Config =
  Backends :: "BackendConfig list"
  Algorithm :: string
  HealthCheck_Enabled :: bool

datatype error = NoBackendsConfigured | InvalidBackendURL string

datatype LoadBalancer =
  RoundRobin RoundRobinBalancer
| LeastConnections LeastConnectionsBalancer
| Weighted WeightedBalancer

text \<open>
  \<open>healthCheck\<close> is \<open>nil\<close> (\<open>None\<close>) when health checking is disabled; otherwise the checker
  holds the pointers to the backends it probes.
\<close>

record ReverseProxy =
  backends :: "Backend list"
  loadBalancer :: LoadBalancer
  healthCheck :: "nat list option"

text \<open>
  The loop of \<open>New\<close> over \<open>cfg.Backends\<close>. \<open>url.Parse\<close> belongs to Go's standard library
  and is a parameter \<open>url_Parse\<close>, \<open>None\<close> standing for its error. The loop returns at the
  first address that does not parse; \<open>acc\<close> is \<open>rp.backends\<close> as built so far.
\<close>

fun init_backends ::
  "(string \<Rightarrow> string option) \<Rightarrow> BackendConfig list \<Rightarrow> Backend list \<Rightarrow> error + Backend list" where
  "init_backends url_Parse [] acc = Inr acc"
| "init_backends url_Parse (b # rest) acc =
     (case url_Parse (cfg_URL b) of
        None \<Rightarrow> Inl (InvalidBackendURL (cfg_URL b))
      | Some backendURL \<Rightarrow>
          let weight = (if cfg_Weight b = 0 then 1 else cfg_Weight b);
              backend = \<lparr>URL = backendURL, Alive = True, Weight = weight, Connections = 0\<rparr>
          in init_backends url_Parse rest (acc @ [backend]))"

definition New :: "(string \<Rightarrow> string option) \<Rightarrow> Config \<Rightarrow> error + ReverseProxy" where
  "New url_Parse cfg =
     (if length (Backends cfg) = 0 then Inl NoBackendsConfigured
      else case init_backends url_Parse (Backends cfg) [] of
        Inl e \<Rightarrow> Inl e
      | Inr pool \<Rightarrow>
          let ptrs = [0..<length pool];
              lb = (if Algorithm cfg = ''round-robin'' then RoundRobin (NewRoundRobinBalancer ptrs)
                    else if Algorithm cfg = ''least-connections''
                      then LeastConnections (NewLeastConnectionsBalancer ptrs)
                    else if Algorithm cfg = ''weighted'' then Weighted (NewWeightedBalancer ptrs)
                    else RoundRobin (NewRoundRobinBalancer ptrs))
          in Inr \<lparr>backends = pool, loadBalancer = lb,
                  healthCheck = (if HealthCheck_Enabled cfg then Some ptrs else None)\<rparr>)"

text \<open>The call \<open>rp.loadBalancer.NextBackend()\<close> through the interface.\<close>

definition NextBackend ::
  "Backend list \<Rightarrow> LoadBalancer \<Rightarrow> LoadBalancer \<times> (panic + nat option)" where
  "NextBackend pool lb =
     (case lb of
        RoundRobin rb \<Rightarrow> (case RoundRobin_NextBackend pool rb of (rb', r) \<Rightarrow> (RoundRobin rb', r))
      | LeastConnections l \<Rightarrow> (lb, Inr (LeastConnections_NextBackend pool l))
      | Weighted wb \<Rightarrow> (case Weighted_NextBackend pool wb of (wb', r) \<Rightarrow> (Weighted wb', r)))"

text \<open>
  \<open>ServeHTTP\<close>, step by step as the source has it: the selection of a backend, the
  increment under the backend's lock (``Track connection''), the forwarding, and the
  deferred decrement, which Go runs when \<open>ServeHTTP\<close> leaves, by return or by panic.
\<close>

definition incr :: "nat \<Rightarrow> Backend list \<Rightarrow> Backend list" where
  "incr backend pool = pool[backend := (pool ! backend)\<lparr>Connections := Connections (pool ! backend) + 1\<rparr>]"

definition decr :: "nat \<Rightarrow> Backend list \<Rightarrow> Backend list" where
  "decr backend pool = pool[backend := (pool ! backend)\<lparr>Connections := Connections (pool ! backend) - 1\<rparr>]"

definition select_backend :: "ReverseProxy \<Rightarrow> ReverseProxy \<times> (panic + nat option)" where
  "select_backend rp =
     (case NextBackend (backends rp) (loadBalancer rp) of
        (lb', r) \<Rightarrow> (rp\<lparr>loadBalancer := lb'\<rparr>, r))"

definition track_connection :: "nat \<Rightarrow> ReverseProxy \<Rightarrow> ReverseProxy" where
  "track_connection backend rp = rp\<lparr>backends := incr backend (backends rp)\<rparr>"

definition release_connection :: "nat \<Rightarrow> ReverseProxy \<Rightarrow> ReverseProxy" where
  "release_connection backend rp = rp\<lparr>backends := decr backend (backends rp)\<rparr>"

text \<open>
  How the forwarding collaborator \<open>backend.Proxy.ServeHTTP\<close> can leave: it wrote the
  upstream's response, it met a transport error (and called \<open>errorHandler\<close>, which writes
  502), or it panicked. What the client observes is the \<open>outcome\<close>. The collaborator is the
  parameter \<open>forward\<close>; it sees the pool as it is while the request is forwarded.
\<close>

datatype transport = Completed | TransportError | TransportPanic

datatype outcome = Proxied | ServiceUnavailable | BadGateway | Aborted

definition ServeHTTP ::
  "(Backend list \<Rightarrow> nat \<Rightarrow> transport) \<Rightarrow> ReverseProxy \<Rightarrow> ReverseProxy \<times> outcome" where
  "ServeHTTP forward rp =
     (case select_backend rp of
        (rp1, Inl p) \<Rightarrow> (rp1, Aborted)
      | (rp1, Inr None) \<Rightarrow> (rp1, ServiceUnavailable)
      | (rp1, Inr (Some backend)) \<Rightarrow>
          let rp2 = track_connection backend rp1;
              t = forward (backends rp2) backend
          in (release_connection backend rp2,
              case t of
                Completed \<Rightarrow> Proxied
              | TransportError \<Rightarrow> BadGateway
              | TransportPanic \<Rightarrow> Aborted))"

text \<open>
  Requests are served concurrently and the health checker runs beside them. Every access
  to a backend's fields happens under that backend's lock, so a run of the system is an
  interleaving of these events: a request arrives and selects its backend, a request that
  has selected a backend increments the count, the forwarding of a request in flight ends
  in some way and the deferred function decrements the count, a probe of a backend ends in
  some way (\<open>check\<close>). \<open>selected\<close> lists the backends of the requests between selection and
  increment, \<open>inflight\<close> those of the requests being forwarded, which the deferred functions
  will decrement. An event that cannot happen (an increment or a decrement by a request
  that is not at that point, a probe without a health checker) gives \<open>None\<close>. A selection
  is one event: the scans read the flags and counts of a pool that does not change under
  them.
\<close>

record System =
  proxy :: ReverseProxy
  selected :: "nat list"
  inflight :: "nat list"

datatype event = Arrive | Track nat | Finish nat transport | Probe nat probe

fun step :: "event \<Rightarrow> System \<Rightarrow> System option" where
  "step Arrive s =
     (case select_backend (proxy s) of
        (rp1, Inr (Some backend)) \<Rightarrow> Some (s\<lparr>proxy := rp1, selected := backend # selected s\<rparr>)
      | (rp1, r) \<Rightarrow> Some (s\<lparr>proxy := rp1\<rparr>))"
| "step (Track backend) s =
     (if backend \<in> set (selected s)
      then Some \<lparr>proxy = track_connection backend (proxy s),
                 selected = remove1 backend (selected s),
                 inflight = backend # inflight s\<rparr>
      else None)"
| "step (Finish backend t) s =
     (if backend \<in> set (inflight s)
      then Some (s\<lparr>proxy := release_connection backend (proxy s),
                    inflight := remove1 backend (inflight s)\<rparr>)
      else None)"
| "step (Probe backend p) s =
     (case healthCheck (proxy s) of
        None \<Rightarrow> None
      | Some hc \<Rightarrow>
          if backend \<in> set hc
          then Some (s\<lparr>proxy := (proxy s)\<lparr>backends :=
                 (backends (proxy s))[backend := check p (backends (proxy s) ! backend)]\<rparr>\<rparr>)
          else None)"

fun run :: "event list \<Rightarrow> System \<Rightarrow> System option" where
  "run [] s = Some s"
| "run (e # es) s = (case step e s of None \<Rightarrow> None | Some s' \<Rightarrow> run es s')"

definition start :: "ReverseProxy \<Rightarrow> System" where
  "start rp = \<lparr>proxy = rp, selected = [], inflight = []\<rparr>"

text \<open>
  Successive calls of one balancer on a pool that does not change in between: what the
  calls return, in order, and the balancer after the last one.
\<close>

fun RoundRobin_calls ::
  "Backend list \<Rightarrow> RoundRobinBalancer \<Rightarrow> nat \<Rightarrow> (panic + nat option) list \<times> RoundRobinBalancer" where
  "RoundRobin_calls pool rb 0 = ([], rb)"
| "RoundRobin_calls pool rb (Suc k) =
     (case RoundRobin_NextBackend pool rb of
        (rb', r) \<Rightarrow> (case RoundRobin_calls pool rb' k of (rs, rb'') \<Rightarrow> (r # rs, rb'')))"

fun Weighted_calls ::
  "Backend list \<Rightarrow> WeightedBalancer \<Rightarrow> nat \<Rightarrow> (panic + nat option) list \<times> WeightedBalancer" where
  "Weighted_calls pool wb 0 = ([], wb)"
| "Weighted_calls pool wb (Suc k) =
     (case Weighted_NextBackend pool wb of
        (wb', r) \<Rightarrow> (case Weighted_calls pool wb' k of (rs, wb'') \<Rightarrow> (r # rs, wb'')))"

text \<open>The fraction of the first \<open>k\<close> calls of a weighted balancer that return backend \<open>p\<close>.\<close>

definition share :: "Backend list \<Rightarrow> WeightedBalancer \<Rightarrow> nat \<Rightarrow> nat \<Rightarrow> real" where
  "share pool wb p k = real (count_list (fst (Weighted_calls pool wb k)) (Inr (Some p))) / real k"

text \<open>
  The pointers a balancer holds. \<open>New\<close> hands every balancer the whole pool, and nothing
  changes the slice afterwards: a routing core is well formed when its balancer's pointers
  are the positions of the pool, in order.
\<close>

fun ptrs :: "LoadBalancer \<Rightarrow> nat list" where
  "ptrs (RoundRobin rb) = rb_backends rb"
| "ptrs (LeastConnections lb) = lb_backends lb"
| "ptrs (Weighted wb) = wb_backends wb"

definition well_formed :: "ReverseProxy \<Rightarrow> bool" where
  "well_formed rp = (ptrs (loadBalancer rp) = [0..<length (backends rp)])"

text \<open>
  The accounting the pipeline keeps: every backend's count is the number of requests in
  flight on it.
\<close>

definition counted :: "System \<Rightarrow> bool" where
  "counted s = (\<forall>i<length (backends (proxy s)).
      Connections (backends (proxy s) ! i) = int (count_list (inflight s) i))"

text \<open>A backend record for the examples: only the three mutable or configured fields vary.\<close>

abbreviation backend_with :: "bool \<Rightarrow> int \<Rightarrow> int \<Rightarrow> Backend" where
  "backend_with alive weight conns \<equiv>
     \<lparr>URL = ''http://backend'', Alive = alive, Weight = weight, Connections = conns\<rparr>"

section \<open>Health probes\<close>

text \<open>
  C5. One probe sets the flag to true exactly when a response arrived with a status in
  [200, 300), and to false on every other outcome, whatever the flag was before; the other
  fields of the record are untouched.
\<close>

theorem check_sets_alive_iff_2xx:
  "Alive (check p b) = (case p of Response s \<Rightarrow> 200 \<le> s \<and> s < 300 | _ \<Rightarrow> False)
   \<and> URL (check p b) = URL b \<and> Weight (check p b) = Weight b
   \<and> Connections (check p b) = Connections b"
  by (cases p) (simp_all add: SetAlive_def)

section \<open>Words of 32 bits\<close>

lemma unat_of_nat32: "n < 2 ^ 32 \<Longrightarrow> unat (of_nat n :: 32 word) = n"
  by (simp add: unat_of_nat)

lemma of_nat32_nonzero: "0 < n \<Longrightarrow> n < 2 ^ 32 \<Longrightarrow> (of_nat n :: 32 word) \<noteq> 0"
  using unat_of_nat32[of n] by auto

lemma unat_mod_of_nat32: "n < 2 ^ 32 \<Longrightarrow> unat ((c :: 32 word) mod of_nat n) = unat c mod n"
  by (simp add: unat_mod unat_of_nat32)

text \<open>Whenever the remainder does not panic, the index is inside the slice.\<close>

lemma unat_mod_of_nat32_less:
  assumes "(of_nat n :: 32 word) \<noteq> 0"
  shows "unat ((c :: 32 word) mod of_nat n) < n"
proof -
  have pos: "0 < unat (of_nat n :: 32 word)"
    using assms by (simp add: unat_gt_0)
  have "unat (c mod of_nat n) = unat c mod unat (of_nat n :: 32 word)"
    by (rule unat_mod)
  also have "\<dots> < unat (of_nat n :: 32 word)"
    using pos by (rule mod_less_divisor)
  also have "\<dots> \<le> n"
    by (simp add: unat_of_nat)
  finally show ?thesis .
qed

section \<open>The scanning loop\<close>

lemma scan_first_alive:
  assumes "0 < k" "0 < length bs" "length bs < 2 ^ 32"
    and "IsAlive (pool ! (bs ! (unat (c + 1) mod length bs)))"
  shows "scan pool bs k c = (c + 1, Inr (Some (bs ! (unat (c + 1) mod length bs))))"
proof -
  obtain k' where "k = Suc k'" using assms(1) by (cases k) auto
  then show ?thesis
    using assms(2-) by (simp add: Let_def of_nat32_nonzero unat_mod_of_nat32)
qed

lemma scan_Some_in_set:
  "scan pool bs k c = (c', Inr (Some p)) \<Longrightarrow> p \<in> set bs"
proof (induction k arbitrary: c)
  case 0
  then show ?case by simp
next
  case (Suc k)
  show ?case
  proof (cases "(of_nat (length bs) :: 32 word) = 0")
    case True
    with Suc.prems show ?thesis by simp
  next
    case False
    let ?idx = "unat ((c + 1) mod of_nat (length bs))"
    have idx: "?idx < length bs" using False by (rule unat_mod_of_nat32_less)
    show ?thesis
    proof (cases "IsAlive (pool ! (bs ! ?idx))")
      case True
      with Suc.prems False have "p = bs ! ?idx" by (auto simp: Let_def)
      with idx show ?thesis by simp
    next
      case dead: False
      with Suc.prems False have "scan pool bs k (c + 1) = (c', Inr (Some p))"
        by (simp add: Let_def)
      then show ?thesis by (rule Suc.IH)
    qed
  qed
qed

lemma scan_Some_alive:
  "scan pool bs k c = (c', Inr (Some p)) \<Longrightarrow> Alive (pool ! p)"
  by (induction k arbitrary: c) (auto simp: Let_def IsAlive_def split: if_splits)

lemma set_expand_subset: "set (expand pool bs) \<subseteq> set bs"
  by (induction bs) auto

lemma expand_member:
  "p \<in> set bs \<Longrightarrow> 0 < Weight (pool ! p) \<Longrightarrow> p \<in> set (expand pool bs)"
  by (induction bs) auto

lemma lc_loop_in_set:
  "lc_loop pool ps sel m = Some p \<Longrightarrow> p \<in> set ps \<or> sel = Some p"
  by (induction ps arbitrary: sel m) (auto simp: Let_def split: if_splits)

lemma NextBackend_in_ptrs:
  assumes "NextBackend pool lb = (lb', Inr (Some p))"
  shows "p \<in> set (ptrs lb)"
proof (cases lb)
  case (RoundRobin rb)
  with assms obtain c' where
    "scan pool (rb_backends rb) (length (rb_backends rb)) (rb_current rb) = (c', Inr (Some p))"
    by (auto simp: NextBackend_def RoundRobin_NextBackend_def Let_def split: if_splits prod.splits)
  then show ?thesis using RoundRobin by (simp add: scan_Some_in_set)
next
  case (LeastConnections l)
  with assms have "lc_loop pool (lb_backends l) None (-1) = Some p"
    by (simp add: NextBackend_def LeastConnections_NextBackend_def)
  then show ?thesis using LeastConnections by (auto dest: lc_loop_in_set)
next
  case (Weighted wb)
  with assms obtain c' where
    "scan pool (expand pool (wb_backends wb)) (length (expand pool (wb_backends wb))) (wb_current wb)
       = (c', Inr (Some p))"
    by (auto simp: NextBackend_def Weighted_NextBackend_def Let_def split: if_splits prod.splits)
  then have "p \<in> set (expand pool (wb_backends wb))" by (rule scan_Some_in_set)
  then show ?thesis using Weighted set_expand_subset by auto
qed

lemma NextBackend_ptrs: "NextBackend pool lb = (lb', r) \<Longrightarrow> ptrs lb' = ptrs lb"
  by (cases lb)
    (auto simp: NextBackend_def RoundRobin_NextBackend_def Weighted_NextBackend_def Let_def
      split: if_splits prod.splits)

section \<open>Construction\<close>

lemma init_backends_Inr:
  "init_backends url_Parse bs acc = Inr pool \<Longrightarrow>
   pool = acc @ map (\<lambda>b. \<lparr>URL = the (url_Parse (cfg_URL b)), Alive = True,
                          Weight = (if cfg_Weight b = 0 then 1 else cfg_Weight b),
                          Connections = 0\<rparr>) bs"
proof (induction bs arbitrary: acc)
  case Nil
  then show ?case by simp
next
  case (Cons b bs)
  from Cons.prems obtain u where u: "url_Parse (cfg_URL b) = Some u"
    by (auto split: option.splits)
  let ?x = "\<lparr>URL = u, Alive = True, Weight = (if cfg_Weight b = 0 then 1 else cfg_Weight b),
             Connections = 0\<rparr>"
  from Cons.prems u have "init_backends url_Parse bs (acc @ [?x]) = Inr pool"
    by (simp add: Let_def)
  from Cons.IH[OF this] u show ?case by simp
qed

lemma init_backends_succeeds:
  "\<forall>b\<in>set bs. url_Parse (cfg_URL b) \<noteq> None \<Longrightarrow> \<exists>pool. init_backends url_Parse bs acc = Inr pool"
  by (induction bs arbitrary: acc) (auto simp: Let_def split: option.splits)

lemma New_Inr_backends:
  assumes "New url_Parse cfg = Inr rp"
  shows "backends rp = map (\<lambda>b. \<lparr>URL = the (url_Parse (cfg_URL b)), Alive = True,
                          Weight = (if cfg_Weight b = 0 then 1 else cfg_Weight b),
                          Connections = 0\<rparr>) (Backends cfg)"
proof -
  from assms obtain pool where p: "init_backends url_Parse (Backends cfg) [] = Inr pool"
    and rp: "backends rp = pool"
    by (auto simp: New_def Let_def split: if_splits sum.splits)
  from init_backends_Inr[OF p] rp show ?thesis by simp
qed

lemma New_well_formed: "New url_Parse cfg = Inr rp \<Longrightarrow> well_formed rp"
  by (auto simp: New_def Let_def well_formed_def NewRoundRobinBalancer_def
      NewLeastConnectionsBalancer_def NewWeightedBalancer_def split: if_splits sum.splits)

text \<open>
  C9. With an empty backend list \<open>New\<close> returns the error and no core; with at least one
  backend, all of whose addresses parse, it returns a core.
\<close>

theorem New_fails_on_empty_succeeds_on_parsable:
  "(Backends cfg = [] \<longrightarrow> New url_Parse cfg = Inl NoBackendsConfigured) \<and>
   (Backends cfg \<noteq> [] \<and> (\<forall>b\<in>set (Backends cfg). url_Parse (cfg_URL b) \<noteq> None)
      \<longrightarrow> (\<exists>rp. New url_Parse cfg = Inr rp))"
proof (intro conjI impI)
  assume "Backends cfg = []"
  then show "New url_Parse cfg = Inl NoBackendsConfigured" by (simp add: New_def)
next
  assume a: "Backends cfg \<noteq> [] \<and> (\<forall>b\<in>set (Backends cfg). url_Parse (cfg_URL b) \<noteq> None)"
  then obtain pool where "init_backends url_Parse (Backends cfg) [] = Inr pool"
    using init_backends_succeeds by blast
  with a show "\<exists>rp. New url_Parse cfg = Inr rp"
    by (simp add: New_def Let_def)
qed

theorem New_fails_on_empty_succeeds_on_parsable_witness:
  "New Some \<lparr>Backends = [], Algorithm = ''round-robin'', HealthCheck_Enabled = True\<rparr>
     = Inl NoBackendsConfigured
   \<and> (\<exists>rp. New Some \<lparr>Backends = [\<lparr>cfg_URL = ''http://a'', cfg_Weight = 2\<rparr>,
                                   \<lparr>cfg_URL = ''http://b'', cfg_Weight = 0\<rparr>],
                       Algorithm = ''round-robin'', HealthCheck_Enabled = True\<rparr> = Inr rp)"
  using New_fails_on_empty_succeeds_on_parsable
          [of "\<lparr>Backends = [], Algorithm = ''round-robin'', HealthCheck_Enabled = True\<rparr>" Some]
        New_fails_on_empty_succeeds_on_parsable
          [of "\<lparr>Backends = [\<lparr>cfg_URL = ''http://a'', cfg_Weight = 2\<rparr>,
                             \<lparr>cfg_URL = ''http://b'', cfg_Weight = 0\<rparr>],
                 Algorithm = ''round-robin'', HealthCheck_Enabled = True\<rparr>" Some]
  by simp

text \<open>
  C6, as the code has it. \<open>New\<close> replaces a configured weight of exactly 0 by 1 and keeps
  every other weight as configured. So when no configured weight is negative, every backend
  of the core has a positive weight and occurs in the weighted balancer's expansion.
\<close>

theorem New_weight_zero_becomes_one:
  assumes "New url_Parse cfg = Inr rp"
  shows "map Weight (backends rp)
           = map (\<lambda>b. if cfg_Weight b = 0 then 1 else cfg_Weight b) (Backends cfg)
    \<and> ((\<forall>b\<in>set (Backends cfg). 0 \<le> cfg_Weight b) \<longrightarrow>
         (\<forall>p<length (backends rp). 0 < Weight (backends rp ! p)
             \<and> p \<in> set (expand (backends rp) [0..<length (backends rp)])))"
proof (intro conjI impI allI)
  show w: "map Weight (backends rp)
             = map (\<lambda>b. if cfg_Weight b = 0 then 1 else cfg_Weight b) (Backends cfg)"
    by (simp add: New_Inr_backends[OF assms] comp_def)
  fix p
  assume nn: "\<forall>b\<in>set (Backends cfg). 0 \<le> cfg_Weight b" and p: "p < length (backends rp)"
  have len: "length (backends rp) = length (Backends cfg)"
    by (simp add: New_Inr_backends[OF assms])
  have "Weight (backends rp ! p) = map Weight (backends rp) ! p" using p by simp
  also have "\<dots> = (if cfg_Weight (Backends cfg ! p) = 0 then 1 else cfg_Weight (Backends cfg ! p))"
    using p len by (simp add: w)
  finally have eq: "Weight (backends rp ! p)
      = (if cfg_Weight (Backends cfg ! p) = 0 then 1 else cfg_Weight (Backends cfg ! p))" .
  have "0 \<le> cfg_Weight (Backends cfg ! p)" using nn p len by simp
  with eq show pos: "0 < Weight (backends rp ! p)" by (simp split: if_splits)
  show "p \<in> set (expand (backends rp) [0..<length (backends rp)])"
    by (rule expand_member) (use p pos in simp_all)
qed

theorem New_weight_zero_becomes_one_witness:
  "New Some \<lparr>Backends = [\<lparr>cfg_URL = ''http://a'', cfg_Weight = 0\<rparr>], Algorithm = ''weighted'',
             HealthCheck_Enabled = False\<rparr>
   = Inr \<lparr>backends = [\<lparr>URL = ''http://a'', Alive = True, Weight = 1, Connections = 0\<rparr>],
          loadBalancer = Weighted \<lparr>wb_backends = [0], wb_current = 0\<rparr>, healthCheck = None\<rparr>
   \<and> map Weight [\<lparr>URL = ''http://a'', Alive = True, Weight = 1, Connections = 0\<rparr>] = [1]
   \<and> 0 \<in> set (expand [\<lparr>URL = ''http://a'', Alive = True, Weight = 1, Connections = 0\<rparr>] [0])"
proof -
  let ?cfg = "\<lparr>Backends = [\<lparr>cfg_URL = ''http://a'', cfg_Weight = 0\<rparr>], Algorithm = ''weighted'',
               HealthCheck_Enabled = False\<rparr>"
  let ?rp = "\<lparr>backends = [\<lparr>URL = ''http://a'', Alive = True, Weight = 1, Connections = 0\<rparr>],
          loadBalancer = Weighted \<lparr>wb_backends = [0], wb_current = 0\<rparr>, healthCheck = None\<rparr>"
  have new: "New Some ?cfg = Inr ?rp"
    by (simp add: New_def NewWeightedBalancer_def)
  from New_weight_zero_becomes_one[OF new] new show ?thesis by simp
qed

text \<open>
  C6, as the claim states it, fails: a configured weight of -1 is kept, the backend's weight
  is not positive and the backend has no place in the weighted expansion.
\<close>

theorem New_keeps_negative_weight:
  "New Some \<lparr>Backends = [\<lparr>cfg_URL = ''http://a'', cfg_Weight = - 1\<rparr>], Algorithm = ''weighted'',
             HealthCheck_Enabled = False\<rparr>
   = Inr \<lparr>backends = [\<lparr>URL = ''http://a'', Alive = True, Weight = - 1, Connections = 0\<rparr>],
          loadBalancer = Weighted \<lparr>wb_backends = [0], wb_current = 0\<rparr>, healthCheck = None\<rparr>
   \<and> expand [\<lparr>URL = ''http://a'', Alive = True, Weight = - 1, Connections = 0\<rparr>] [0] = []"
  by (simp add: New_def NewWeightedBalancer_def)

section \<open>Round robin\<close>

text \<open>
  C10. On a pool of at least one and fewer than \<open>2 ^ 32\<close> backends, all alive, the first
  call after construction moves the cursor from 0 to 1 and returns the backend at position
  \<open>1 mod n\<close>: with two or more backends that is the second one, not the first.
\<close>

theorem RoundRobin_first_call:
  assumes "pool \<noteq> []" and "length pool < 2 ^ 32" and "\<forall>b\<in>set pool. Alive b"
  shows "RoundRobin_NextBackend pool (NewRoundRobinBalancer [0..<length pool])
         = (\<lparr>rb_backends = [0..<length pool], rb_current = 1\<rparr>, Inr (Some (1 mod length pool)))
       \<and> (2 \<le> length pool \<longrightarrow>
            snd (RoundRobin_NextBackend pool (NewRoundRobinBalancer [0..<length pool])) = Inr (Some 1))"
proof -
  let ?n = "length pool"
  have n: "0 < ?n" using assms(1) by simp
  have lt: "1 mod ?n < ?n" using n by (rule mod_less_divisor)
  have alive: "IsAlive (pool ! (1 mod ?n))"
    using assms(3) lt by (simp add: IsAlive_def)
  have "scan pool [0..<?n] ?n 0
      = (0 + 1, Inr (Some ([0..<?n] ! (unat (0 + 1 :: 32 word) mod length [0..<?n]))))"
    by (rule scan_first_alive) (use n assms(2) alive lt in simp_all)
  then have "scan pool [0..<?n] ?n 0 = (1, Inr (Some (1 mod ?n)))"
    using lt by simp
  then have first: "RoundRobin_NextBackend pool (NewRoundRobinBalancer [0..<?n])
      = (\<lparr>rb_backends = [0..<?n], rb_current = 1\<rparr>, Inr (Some (1 mod ?n)))"
    using n by (simp add: RoundRobin_NextBackend_def NewRoundRobinBalancer_def)
  then show ?thesis by simp
qed

theorem RoundRobin_first_call_witness:
  "RoundRobin_NextBackend [backend_with True 1 0, backend_with True 1 0, backend_with True 1 0]
     (NewRoundRobinBalancer [0, 1, 2])
   = (\<lparr>rb_backends = [0, 1, 2], rb_current = 1\<rparr>, Inr (Some 1))"
proof -
  let ?pool = "[backend_with True 1 0, backend_with True 1 0, backend_with True 1 0]"
  have nonempty: "?pool \<noteq> []" by simp
  have small: "length ?pool < 2 ^ 32" by simp
  have alive: "\<forall>b\<in>set ?pool. Alive b" by simp
  have positions: "[0..<length ?pool] = [0, 1, 2]"
    by (simp add: upt_rec numeral_2_eq_2)
  from RoundRobin_first_call[OF nonempty small alive] show ?thesis
    unfolding positions by simp
qed

section \<open>The request pipeline\<close>

lemma incr_decr: "decr i (incr i pool) = pool"
  by (cases "i < length pool") (simp_all add: incr_def decr_def list_update_beyond)

lemma length_incr [simp]: "length (incr i pool) = length pool"
  by (simp add: incr_def)

lemma length_decr [simp]: "length (decr i pool) = length pool"
  by (simp add: decr_def)

lemma select_backend_Some:
  assumes "select_backend rp = (rp1, r)"
  shows "\<exists>lb'. NextBackend (backends rp) (loadBalancer rp) = (lb', r)
       \<and> rp1 = rp\<lparr>loadBalancer := lb'\<rparr>"
  using assms by (auto simp: select_backend_def split: prod.splits)

lemma select_backend_backends: "select_backend rp = (rp1, r) \<Longrightarrow> backends rp1 = backends rp"
  by (auto dest: select_backend_Some)

text \<open>
  C2. For a well-formed core and whatever the forwarding collaborator does (\<open>forward\<close> may
  answer \<open>Completed\<close>, \<open>TransportError\<close> or \<open>TransportPanic\<close>), the pool after \<open>ServeHTTP\<close>
  is the pool before it. When a backend is selected, it is a backend of the pool, its
  count is one higher in the pool the collaborator sees while the request is forwarded,
  and the deferred function brings it back to the value before the request.
\<close>

theorem ServeHTTP_restores_connections:
  assumes "well_formed rp"
  shows "backends (fst (ServeHTTP forward rp)) = backends rp \<and>
    (\<forall>rp1 i. select_backend rp = (rp1, Inr (Some i)) \<longrightarrow>
        i < length (backends rp)
      \<and> Connections (backends (track_connection i rp1) ! i) = Connections (backends rp ! i) + 1
      \<and> fst (ServeHTTP forward rp) = release_connection i (track_connection i rp1)
      \<and> snd (ServeHTTP forward rp)
          = (case forward (backends (track_connection i rp1)) i of
               Completed \<Rightarrow> Proxied | TransportError \<Rightarrow> BadGateway | TransportPanic \<Rightarrow> Aborted)
      \<and> Connections (backends (release_connection i (track_connection i rp1)) ! i)
          = Connections (backends rp ! i))"
proof (intro conjI allI impI)
  show restored: "backends (fst (ServeHTTP forward rp)) = backends rp"
    by (auto simp: ServeHTTP_def select_backend_def track_connection_def release_connection_def
        incr_decr Let_def split: prod.splits sum.splits option.splits)
  fix rp1 i
  assume b: "select_backend rp = (rp1, Inr (Some i))"
  from select_backend_Some[OF b] obtain lb' where
    nb: "NextBackend (backends rp) (loadBalancer rp) = (lb', Inr (Some i))" and
    rp1: "rp1 = rp\<lparr>loadBalancer := lb'\<rparr>" by blast
  from NextBackend_in_ptrs[OF nb] assms show i: "i < length (backends rp)"
    by (simp add: well_formed_def)
  show "Connections (backends (track_connection i rp1) ! i) = Connections (backends rp ! i) + 1"
    using i by (simp add: rp1 track_connection_def incr_def)
  show e: "fst (ServeHTTP forward rp) = release_connection i (track_connection i rp1)"
    using b by (simp add: ServeHTTP_def Let_def)
  show "snd (ServeHTTP forward rp)
      = (case forward (backends (track_connection i rp1)) i of
           Completed \<Rightarrow> Proxied | TransportError \<Rightarrow> BadGateway | TransportPanic \<Rightarrow> Aborted)"
    using b by (simp add: ServeHTTP_def Let_def)
  show "Connections (backends (release_connection i (track_connection i rp1)) ! i)
      = Connections (backends rp ! i)"
    using restored e by simp
qed

theorem ServeHTTP_restores_connections_witness:
  "select_backend \<lparr>backends = [backend_with True 1 0, backend_with True 1 0],
                    loadBalancer = RoundRobin \<lparr>rb_backends = [0, 1], rb_current = 0\<rparr>,
                    healthCheck = None\<rparr>
     = (\<lparr>backends = [backend_with True 1 0, backend_with True 1 0],
         loadBalancer = RoundRobin \<lparr>rb_backends = [0, 1], rb_current = 1\<rparr>,
         healthCheck = None\<rparr>, Inr (Some 1))
   \<and> track_connection 1 \<lparr>backends = [backend_with True 1 0, backend_with True 1 0],
         loadBalancer = RoundRobin \<lparr>rb_backends = [0, 1], rb_current = 1\<rparr>,
         healthCheck = None\<rparr>
     = \<lparr>backends = [backend_with True 1 0, backend_with True 1 1],
        loadBalancer = RoundRobin \<lparr>rb_backends = [0, 1], rb_current = 1\<rparr>,
        healthCheck = None\<rparr>
   \<and> ServeHTTP (\<lambda>pool backend. TransportPanic)
        \<lparr>backends = [backend_with True 1 0, backend_with True 1 0],
         loadBalancer = RoundRobin \<lparr>rb_backends = [0, 1], rb_current = 0\<rparr>,
         healthCheck = None\<rparr>
     = (\<lparr>backends = [backend_with True 1 0, backend_with True 1 0],
         loadBalancer = RoundRobin \<lparr>rb_backends = [0, 1], rb_current = 1\<rparr>,
         healthCheck = None\<rparr>, Aborted)"
proof -
  let ?rp = "\<lparr>backends = [backend_with True 1 0, backend_with True 1 0],
              loadBalancer = RoundRobin \<lparr>rb_backends = [0, 1], rb_current = 0\<rparr>,
              healthCheck = None\<rparr>"
  let ?rp1 = "\<lparr>backends = [backend_with True 1 0, backend_with True 1 0],
               loadBalancer = RoundRobin \<lparr>rb_backends = [0, 1], rb_current = 1\<rparr>,
               healthCheck = None\<rparr>"
  let ?rp2 = "\<lparr>backends = [backend_with True 1 0, backend_with True 1 1],
               loadBalancer = RoundRobin \<lparr>rb_backends = [0, 1], rb_current = 1\<rparr>,
               healthCheck = None\<rparr>"
  have wf: "well_formed ?rp"
    by (simp add: well_formed_def upt_rec)
  have sel: "select_backend ?rp = (?rp1, Inr (Some 1))"
    by code_simp
  have tr: "track_connection 1 ?rp1 = ?rp2"
    by (simp add: track_connection_def incr_def)
  have out: "snd (ServeHTTP (\<lambda>pool backend. TransportPanic) ?rp) = Aborted"
    unfolding ServeHTTP_def sel by (simp add: Let_def)
  from ServeHTTP_restores_connections[OF wf, of "\<lambda>pool backend. TransportPanic"] sel
  have "fst (ServeHTTP (\<lambda>pool backend. TransportPanic) ?rp)
      = release_connection 1 (track_connection 1 ?rp1)"
    by blast
  then have "fst (ServeHTTP (\<lambda>pool backend. TransportPanic) ?rp) = ?rp1"
    unfolding tr by (simp add: release_connection_def decr_def)
  with out have "ServeHTTP (\<lambda>pool backend. TransportPanic) ?rp = (?rp1, Aborted)"
    by (simp add: prod_eq_iff)
  with sel tr show ?thesis by (simp only:)
qed

section \<open>Least connections\<close>

text \<open>
  What the loop has computed after any part of the slice, when no count is negative:
  either it kept the candidate it started with, which no alive backend of the part beats,
  or it returns an alive backend of the part that is strictly below everything alive
  before it and not above anything alive after it.
\<close>

lemma lc_loop_spec:
  assumes "\<forall>p\<in>set ps. 0 \<le> Connections (pool ! p)"
    and "case sel of None \<Rightarrow> m = -1 | Some s \<Rightarrow> m = Connections (pool ! s) \<and> 0 \<le> m"
  shows "(lc_loop pool ps sel m = sel
            \<and> (\<forall>x\<in>set ps. Alive (pool ! x) \<longrightarrow> sel \<noteq> None \<and> m \<le> Connections (pool ! x)))
       \<or> (\<exists>xs r ys. ps = xs @ r # ys \<and> lc_loop pool ps sel m = Some r \<and> Alive (pool ! r)
             \<and> (sel \<noteq> None \<longrightarrow> Connections (pool ! r) < m)
             \<and> (\<forall>x\<in>set xs. Alive (pool ! x) \<longrightarrow> Connections (pool ! r) < Connections (pool ! x))
             \<and> (\<forall>y\<in>set ys. Alive (pool ! y) \<longrightarrow> Connections (pool ! r) \<le> Connections (pool ! y)))"
  using assms
proof (induction ps arbitrary: sel m)
  case Nil
  then show ?case by simp
next
  case (Cons p ps)
  have nn: "\<forall>p\<in>set ps. 0 \<le> Connections (pool ! p)" using Cons.prems(1) by simp
  have pnn: "0 \<le> Connections (pool ! p)" using Cons.prems(1) by simp
  show ?case
  proof (cases "Alive (pool ! p)")
    case False
    then have eq: "lc_loop pool (p # ps) sel m = lc_loop pool ps sel m"
      by (simp add: IsAlive_def)
    from Cons.IH[OF nn Cons.prems(2)]
    show ?thesis
    proof (elim disjE exE conjE)
      assume "lc_loop pool ps sel m = sel"
        "\<forall>x\<in>set ps. Alive (pool ! x) \<longrightarrow> sel \<noteq> None \<and> m \<le> Connections (pool ! x)"
      then show ?thesis using False eq by simp
    next
      fix xs r ys
      assume h: "ps = xs @ r # ys" "lc_loop pool ps sel m = Some r" "Alive (pool ! r)"
        "sel \<noteq> None \<longrightarrow> Connections (pool ! r) < m"
        "\<forall>x\<in>set xs. Alive (pool ! x) \<longrightarrow> Connections (pool ! r) < Connections (pool ! x)"
        "\<forall>y\<in>set ys. Alive (pool ! y) \<longrightarrow> Connections (pool ! r) \<le> Connections (pool ! y)"
      show ?thesis
        by (rule disjI2, rule exI[of _ "p # xs"], rule exI[of _ r], rule exI[of _ ys])
          (use h eq False in simp)
    qed
  next
    case True
    let ?c = "Connections (pool ! p)"
    show ?thesis
    proof (cases "m = -1 \<or> ?c < m")
      case take: True
      then have eq: "lc_loop pool (p # ps) sel m = lc_loop pool ps (Some p) ?c"
        using True by (simp add: IsAlive_def GetConnections_def)
      have below: "sel \<noteq> None \<longrightarrow> ?c < m"
        using take Cons.prems(2) by (auto split: option.splits)
      have "(lc_loop pool ps (Some p) ?c = Some p
            \<and> (\<forall>x\<in>set ps. Alive (pool ! x) \<longrightarrow> Some p \<noteq> None \<and> ?c \<le> Connections (pool ! x)))
       \<or> (\<exists>xs r ys. ps = xs @ r # ys \<and> lc_loop pool ps (Some p) ?c = Some r \<and> Alive (pool ! r)
             \<and> (Some p \<noteq> None \<longrightarrow> Connections (pool ! r) < ?c)
             \<and> (\<forall>x\<in>set xs. Alive (pool ! x) \<longrightarrow> Connections (pool ! r) < Connections (pool ! x))
             \<and> (\<forall>y\<in>set ys. Alive (pool ! y) \<longrightarrow> Connections (pool ! r) \<le> Connections (pool ! y)))"
        by (rule Cons.IH[OF nn]) (use pnn in simp_all)
      then show ?thesis
      proof (elim disjE exE conjE)
        assume h: "lc_loop pool ps (Some p) ?c = Some p"
          "\<forall>x\<in>set ps. Alive (pool ! x) \<longrightarrow> Some p \<noteq> None \<and> ?c \<le> Connections (pool ! x)"
        show ?thesis
          by (rule disjI2, rule exI[of _ "[]"], rule exI[of _ p], rule exI[of _ ps])
            (use h eq True below in simp)
      next
        fix xs r ys
        assume h: "ps = xs @ r # ys" "lc_loop pool ps (Some p) ?c = Some r" "Alive (pool ! r)"
          "Some p \<noteq> None \<longrightarrow> Connections (pool ! r) < ?c"
          "\<forall>x\<in>set xs. Alive (pool ! x) \<longrightarrow> Connections (pool ! r) < Connections (pool ! x)"
          "\<forall>y\<in>set ys. Alive (pool ! y) \<longrightarrow> Connections (pool ! r) \<le> Connections (pool ! y)"
        have lt: "Connections (pool ! r) < ?c" using h(4) by simp
        have "sel \<noteq> None \<longrightarrow> Connections (pool ! r) < m"
          using below lt by auto
        then show ?thesis
          by (intro disjI2 exI[of _ "p # xs"] exI[of _ r] exI[of _ ys])
            (use h(1,2,3,5,6) eq lt in simp)
      qed
    next
      case keep: False
      then have eq: "lc_loop pool (p # ps) sel m = lc_loop pool ps sel m"
        using True by (simp add: IsAlive_def GetConnections_def)
      from keep have m: "m \<noteq> -1" "m \<le> ?c" by auto
      with Cons.prems(2) have sel: "sel \<noteq> None" by (auto split: option.splits)
      from Cons.IH[OF nn Cons.prems(2)]
      show ?thesis
      proof (elim disjE exE conjE)
        assume "lc_loop pool ps sel m = sel"
          "\<forall>x\<in>set ps. Alive (pool ! x) \<longrightarrow> sel \<noteq> None \<and> m \<le> Connections (pool ! x)"
        then show ?thesis using eq m sel by simp
      next
        fix xs r ys
        assume h: "ps = xs @ r # ys" "lc_loop pool ps sel m = Some r" "Alive (pool ! r)"
          "sel \<noteq> None \<longrightarrow> Connections (pool ! r) < m"
          "\<forall>x\<in>set xs. Alive (pool ! x) \<longrightarrow> Connections (pool ! r) < Connections (pool ! x)"
          "\<forall>y\<in>set ys. Alive (pool ! y) \<longrightarrow> Connections (pool ! r) \<le> Connections (pool ! y)"
        have lt: "Connections (pool ! r) < ?c" using h(4) sel m by simp
        show ?thesis
          by (intro disjI2 exI[of _ "p # xs"] exI[of _ r] exI[of _ ys])
            (use h eq lt in simp)
      qed
    qed
  qed
qed

lemma upt_split:
  assumes "[0..<n] = xs @ r # ys"
  shows "r = length xs \<and> r < n \<and> set xs = {..<r} \<and> set ys = {Suc r..<n}"
proof -
  have len: "n = length xs + Suc (length ys)"
    using arg_cong[OF assms, of length] by simp
  have r: "r = length xs"
  proof -
    have "[0..<n] ! length xs = r" using assms by simp
    moreover have "length xs < n" using len by simp
    ultimately show ?thesis by simp
  qed
  have xs: "xs = [0..<r]"
  proof -
    have "take (length xs) [0..<n] = xs" using assms by simp
    then show ?thesis using r len by (simp add: take_upt)
  qed
  have ys: "ys = [Suc r..<n]"
  proof -
    have "drop (Suc (length xs)) [0..<n] = ys" using assms by simp
    then show ?thesis using r by (simp add: drop_upt)
  qed
  show ?thesis using r len xs ys by auto
qed

text \<open>
  C4. On a pool whose counts are not negative (the data model's invariant, which the
  pipeline keeps) and which has an alive backend, the least-connections balancer returns
  an alive backend whose count is the minimum over the alive backends, and every alive
  backend before it in pool order has a strictly larger count: among several backends
  with the minimum it is the first.
\<close>

theorem LeastConnections_selects_first_minimum:
  assumes "\<forall>b\<in>set pool. 0 \<le> Connections b" and "\<exists>b\<in>set pool. Alive b"
  shows "\<exists>i<length pool.
      LeastConnections_NextBackend pool (NewLeastConnectionsBalancer [0..<length pool]) = Some i
    \<and> Alive (pool ! i)
    \<and> (\<forall>j<length pool. Alive (pool ! j) \<longrightarrow> Connections (pool ! i) \<le> Connections (pool ! j))
    \<and> (\<forall>j<i. Alive (pool ! j) \<longrightarrow> Connections (pool ! i) < Connections (pool ! j))"
proof -
  let ?n = "length pool"
  have nn: "\<forall>p\<in>set [0..<?n]. 0 \<le> Connections (pool ! p)"
    using assms(1) by simp
  from assms(2) obtain a where a: "a < ?n" "Alive (pool ! a)"
    by (auto simp: in_set_conv_nth)
  have "(lc_loop pool [0..<?n] None (-1) = None
            \<and> (\<forall>x\<in>set [0..<?n]. Alive (pool ! x) \<longrightarrow> (None :: nat option) \<noteq> None \<and> -1 \<le> Connections (pool ! x)))
       \<or> (\<exists>xs r ys. [0..<?n] = xs @ r # ys \<and> lc_loop pool [0..<?n] None (-1) = Some r \<and> Alive (pool ! r)
             \<and> ((None :: nat option) \<noteq> None \<longrightarrow> Connections (pool ! r) < -1)
             \<and> (\<forall>x\<in>set xs. Alive (pool ! x) \<longrightarrow> Connections (pool ! r) < Connections (pool ! x))
             \<and> (\<forall>y\<in>set ys. Alive (pool ! y) \<longrightarrow> Connections (pool ! r) \<le> Connections (pool ! y)))"
    by (rule lc_loop_spec[OF nn]) simp
  then show ?thesis
  proof (elim disjE exE conjE)
    assume "\<forall>x\<in>set [0..<?n]. Alive (pool ! x) \<longrightarrow> (None :: nat option) \<noteq> None \<and> -1 \<le> Connections (pool ! x)"
    with a show ?thesis by simp
  next
    fix xs r ys
    assume h: "[0..<?n] = xs @ r # ys" "lc_loop pool [0..<?n] None (-1) = Some r" "Alive (pool ! r)"
      "\<forall>x\<in>set xs. Alive (pool ! x) \<longrightarrow> Connections (pool ! r) < Connections (pool ! x)"
      "\<forall>y\<in>set ys. Alive (pool ! y) \<longrightarrow> Connections (pool ! r) \<le> Connections (pool ! y)"
    from upt_split[OF h(1)] have s: "r < ?n" "set xs = {..<r}" "set ys = {Suc r..<?n}" by auto
    have before: "\<forall>j<r. Alive (pool ! j) \<longrightarrow> Connections (pool ! r) < Connections (pool ! j)"
      using h(4) s(2) by auto
    have after: "\<forall>j. r < j \<and> j < ?n \<longrightarrow> Alive (pool ! j) \<longrightarrow> Connections (pool ! r) \<le> Connections (pool ! j)"
      using h(5) s(3) by auto
    have all: "\<forall>j<?n. Alive (pool ! j) \<longrightarrow> Connections (pool ! r) \<le> Connections (pool ! j)"
    proof (intro allI impI)
      fix j assume j: "j < ?n" "Alive (pool ! j)"
      consider "j < r" | "j = r" | "r < j" by linarith
      then show "Connections (pool ! r) \<le> Connections (pool ! j)"
        using before after j by cases auto
    qed
    show ?thesis
      using s(1) h(2,3) all before
      by (auto simp: LeastConnections_NextBackend_def NewLeastConnectionsBalancer_def)
  qed
qed

theorem LeastConnections_selects_first_minimum_witness:
  "LeastConnections_NextBackend
     [backend_with True 1 3, backend_with False 1 0, backend_with True 1 1, backend_with True 1 1]
     (NewLeastConnectionsBalancer [0, 1, 2, 3]) = Some 2"
proof -
  let ?pool = "[backend_with True 1 3, backend_with False 1 0, backend_with True 1 1, backend_with True 1 1]"
  have nonneg: "\<forall>b\<in>set ?pool. 0 \<le> Connections b" by simp
  have alive: "\<exists>b\<in>set ?pool. Alive b" by simp
  have positions: "[0..<length ?pool] = [0, 1, 2, 3]"
    by (simp add: upt_rec numeral_2_eq_2 numeral_3_eq_3)
  from LeastConnections_selects_first_minimum[OF nonneg alive]
  obtain i where i: "i < 4"
    "LeastConnections_NextBackend ?pool (NewLeastConnectionsBalancer [0, 1, 2, 3]) = Some i"
    "Alive (?pool ! i)"
    "\<forall>j<4. Alive (?pool ! j) \<longrightarrow> Connections (?pool ! i) \<le> Connections (?pool ! j)"
    "\<forall>j<i. Alive (?pool ! j) \<longrightarrow> Connections (?pool ! i) < Connections (?pool ! j)"
    unfolding positions by auto
  from i(1) consider "i = 0" | "i = 1" | "i = 2" | "i = 3" by linarith
  then have "i = 2"
  proof cases
    case 1
    with i(4)[rule_format, of 2] show ?thesis by simp
  next
    case 2
    with i(3) show ?thesis by simp
  next
    case 3
    then show ?thesis .
  next
    case 4
    with i(5)[rule_format, of 2] show ?thesis by simp
  qed
  with i(2) show ?thesis by simp
qed

section \<open>Connection counts under concurrency\<close>

lemma check_Connections [simp]: "Connections (check p b) = Connections b"
  by (cases p) (simp_all add: SetAlive_def)

lemma probe_keeps_Connections:
  "Connections (pool[b := check p (pool ! b)] ! i) = Connections (pool ! i)"
  by (cases "b < length pool") (simp_all add: nth_list_update list_update_beyond)

lemma count_list_remove1:
  "b \<in> set xs \<Longrightarrow> int (count_list (remove1 b xs) i) = int (count_list xs i) - (if i = b then 1 else 0)"
  by (induction xs) auto

lemma track_counted:
  assumes "counted s"
  shows "counted \<lparr>proxy = track_connection b (proxy s), selected = sel, inflight = b # inflight s\<rparr>"
  using assms
  by (auto simp: counted_def track_connection_def incr_def nth_list_update)

lemma finish_counted:
  assumes "counted s" and "b \<in> set (inflight s)"
  shows "counted (s\<lparr>proxy := release_connection b (proxy s), inflight := remove1 b (inflight s)\<rparr>)"
  unfolding counted_def
proof (intro allI impI)
  fix i
  let ?s' = "s\<lparr>proxy := release_connection b (proxy s), inflight := remove1 b (inflight s)\<rparr>"
  assume "i < length (backends (proxy ?s'))"
  then have i: "i < length (backends (proxy s))" by (simp add: release_connection_def)
  have old: "Connections (backends (proxy s) ! i) = int (count_list (inflight s) i)"
    using assms(1) i by (simp add: counted_def)
  have "Connections (backends (proxy ?s') ! i)
      = Connections (backends (proxy s) ! i) - (if i = b then 1 else 0)"
    using i by (simp add: release_connection_def decr_def nth_list_update)
  also have "\<dots> = int (count_list (inflight s) i) - (if i = b then 1 else 0)"
    by (simp only: old)
  also have "\<dots> = int (count_list (remove1 b (inflight s)) i)"
    by (simp only: count_list_remove1[OF assms(2)])
  finally show "Connections (backends (proxy ?s') ! i) = int (count_list (inflight ?s') i)"
    by simp
qed

lemma step_counted:
  assumes "counted s" and "step e s = Some s'"
  shows "counted s'"
proof (cases e)
  case Arrive
  obtain rp1 r where sb: "select_backend (proxy s) = (rp1, r)"
    by (cases "select_backend (proxy s)")
  have bk: "backends rp1 = backends (proxy s)"
    using sb by (rule select_backend_backends)
  from sb Arrive assms(2) have "backends (proxy s') = backends rp1 \<and> inflight s' = inflight s"
    by (auto split: sum.splits option.splits)
  then show ?thesis using assms(1) bk by (simp add: counted_def)
next
  case (Track b)
  with assms(2) have s': "s' = \<lparr>proxy = track_connection b (proxy s),
      selected = remove1 b (selected s), inflight = b # inflight s\<rparr>"
    by (auto split: if_splits)
  show ?thesis
    unfolding s' using assms(1) by (rule track_counted)
next
  case (Finish b t)
  with assms(2) have b: "b \<in> set (inflight s)"
    and s': "s' = s\<lparr>proxy := release_connection b (proxy s), inflight := remove1 b (inflight s)\<rparr>"
    by (auto split: if_splits)
  show ?thesis
    unfolding s' using assms(1) b by (rule finish_counted)
next
  case (Probe b p)
  with assms(2) have s': "s' = s\<lparr>proxy := (proxy s)\<lparr>backends :=
                 (backends (proxy s))[b := check p (backends (proxy s) ! b)]\<rparr>\<rparr>"
    by (auto split: option.splits if_splits)
  show ?thesis
    using assms(1) by (simp add: counted_def s' probe_keeps_Connections)
qed

lemma run_counted:
  "counted s \<Longrightarrow> run es s = Some s' \<Longrightarrow> counted s'"
proof (induction es arbitrary: s)
  case Nil
  then show ?case by simp
next
  case (Cons e es)
  from Cons.prems(2) obtain s1 where s1: "step e s = Some s1" and r: "run es s1 = Some s'"
    by (auto split: option.splits)
  from step_counted[OF Cons.prems(1) s1] r show ?case by (rule Cons.IH)
qed

text \<open>
  Every state the system reaches from a core built by \<open>New\<close> is well formed: no event
  changes the length of the pool or a balancer's slice.
\<close>

lemma step_well_formed:
  assumes "well_formed (proxy s)" and "step e s = Some s'"
  shows "well_formed (proxy s')"
proof (cases e)
  case Arrive
  obtain rp1 r where sb: "select_backend (proxy s) = (rp1, r)"
    by (cases "select_backend (proxy s)")
  from select_backend_Some[OF sb] obtain lb' where
    nb: "NextBackend (backends (proxy s)) (loadBalancer (proxy s)) = (lb', r)"
    and rp1: "rp1 = (proxy s)\<lparr>loadBalancer := lb'\<rparr>" by blast
  have "well_formed rp1"
    using assms(1) NextBackend_ptrs[OF nb] by (simp add: well_formed_def rp1)
  moreover from sb Arrive assms(2) have "proxy s' = rp1"
    by (auto split: sum.splits option.splits)
  ultimately show ?thesis by simp
next
  case (Track b)
  with assms show ?thesis
    by (auto simp: well_formed_def track_connection_def split: if_splits)
next
  case (Finish b t)
  with assms show ?thesis
    by (auto simp: well_formed_def release_connection_def split: if_splits)
next
  case (Probe b p)
  with assms show ?thesis
    by (auto simp: well_formed_def split: option.splits if_splits)
qed

lemma run_well_formed:
  "well_formed (proxy s) \<Longrightarrow> run es s = Some s' \<Longrightarrow> well_formed (proxy s')"
proof (induction es arbitrary: s)
  case Nil
  then show ?case by simp
next
  case (Cons e es)
  from Cons.prems(2) obtain s1 where s1: "step e s = Some s1" and r: "run es s1 = Some s'"
    by (auto split: option.splits)
  from step_well_formed[OF Cons.prems(1) s1] r show ?case by (rule Cons.IH)
qed

lemma reachable_well_formed:
  "New url_Parse cfg = Inr rp \<Longrightarrow> run es (start rp) = Some s \<Longrightarrow> well_formed (proxy s)"
  using New_well_formed[of url_Parse cfg rp] run_well_formed[of "start rp" es s]
  by (simp add: start_def)

lemma New_Connections_zero:
  "New url_Parse cfg = Inr rp \<Longrightarrow> b \<in> set (backends rp) \<Longrightarrow> Connections b = 0"
  using New_Inr_backends[of url_Parse cfg rp] by auto

lemma start_counted: "New url_Parse cfg = Inr rp \<Longrightarrow> counted (start rp)"
  using New_Connections_zero[of url_Parse cfg rp] by (simp add: counted_def start_def)

text \<open>
  C8. Every backend of a core built by \<open>New\<close> starts with count 0, and after any
  interleaving of selections, increments, finishing requests (however the forwarding
  ended) and health probes, every backend's count is the number of requests in flight on
  it, hence not negative.
\<close>

theorem connections_never_negative:
  assumes "New url_Parse cfg = Inr rp" and "run es (start rp) = Some s"
  shows "(\<forall>b\<in>set (backends rp). Connections b = 0)
       \<and> (\<forall>i<length (backends (proxy s)).
             Connections (backends (proxy s) ! i) = int (count_list (inflight s) i))
       \<and> (\<forall>b\<in>set (backends (proxy s)). 0 \<le> Connections b)"
proof (intro conjI)
  show "\<forall>b\<in>set (backends rp). Connections b = 0"
    using New_Connections_zero[OF assms(1)] by blast
  have c: "counted s"
    using start_counted[OF assms(1)] assms(2) by (rule run_counted)
  then show "\<forall>i<length (backends (proxy s)).
             Connections (backends (proxy s) ! i) = int (count_list (inflight s) i)"
    by (simp add: counted_def)
  show "\<forall>b\<in>set (backends (proxy s)). 0 \<le> Connections b"
    using c by (auto simp: counted_def in_set_conv_nth)
qed

theorem connections_never_negative_witness:
  "New Some \<lparr>Backends = [\<lparr>cfg_URL = ''http://a'', cfg_Weight = 1\<rparr>,
                          \<lparr>cfg_URL = ''http://b'', cfg_Weight = 1\<rparr>],
             Algorithm = ''least-connections'', HealthCheck_Enabled = True\<rparr>
     = Inr \<lparr>backends = [\<lparr>URL = ''http://a'', Alive = True, Weight = 1, Connections = 0\<rparr>,
                        \<lparr>URL = ''http://b'', Alive = True, Weight = 1, Connections = 0\<rparr>],
            loadBalancer = LeastConnections \<lparr>lb_backends = [0, 1]\<rparr>,
            healthCheck = Some [0, 1]\<rparr>
   \<and> run [Arrive, Arrive, Track 0, Track 0, Probe 0 DoError, Arrive, Finish 0 TransportError,
           Track 1, Finish 1 Completed, Arrive]
        (start \<lparr>backends = [\<lparr>URL = ''http://a'', Alive = True, Weight = 1, Connections = 0\<rparr>,
                             \<lparr>URL = ''http://b'', Alive = True, Weight = 1, Connections = 0\<rparr>],
                 loadBalancer = LeastConnections \<lparr>lb_backends = [0, 1]\<rparr>,
                 healthCheck = Some [0, 1]\<rparr>)
     = Some \<lparr>proxy =
          \<lparr>backends = [\<lparr>URL = ''http://a'', Alive = False, Weight = 1, Connections = 1\<rparr>,
                       \<lparr>URL = ''http://b'', Alive = True, Weight = 1, Connections = 0\<rparr>],
           loadBalancer = LeastConnections \<lparr>lb_backends = [0, 1]\<rparr>,
           healthCheck = Some [0, 1]\<rparr>,
        selected = [1], inflight = [0]\<rparr>
   \<and> list_all (\<lambda>b. 0 \<le> Connections b)
        [\<lparr>URL = ''http://a'', Alive = False, Weight = 1, Connections = 1\<rparr>,
         \<lparr>URL = ''http://b'', Alive = True, Weight = 1, Connections = 0\<rparr>]"
proof -
  let ?cfg = "\<lparr>Backends = [\<lparr>cfg_URL = ''http://a'', cfg_Weight = 1\<rparr>,
                            \<lparr>cfg_URL = ''http://b'', cfg_Weight = 1\<rparr>],
               Algorithm = ''least-connections'', HealthCheck_Enabled = True\<rparr>"
  let ?rp = "\<lparr>backends = [\<lparr>URL = ''http://a'', Alive = True, Weight = 1, Connections = 0\<rparr>,
                          \<lparr>URL = ''http://b'', Alive = True, Weight = 1, Connections = 0\<rparr>],
              loadBalancer = LeastConnections \<lparr>lb_backends = [0, 1]\<rparr>,
              healthCheck = Some [0, 1]\<rparr>"
  let ?es = "[Arrive, Arrive, Track 0, Track 0, Probe 0 DoError, Arrive, Finish 0 TransportError,
              Track 1, Finish 1 Completed, Arrive]"
  let ?pool = "[\<lparr>URL = ''http://a'', Alive = False, Weight = 1, Connections = 1\<rparr>,
                \<lparr>URL = ''http://b'', Alive = True, Weight = 1, Connections = 0\<rparr>]"
  let ?s = "\<lparr>proxy = \<lparr>backends = ?pool, loadBalancer = LeastConnections \<lparr>lb_backends = [0, 1]\<rparr>,
                       healthCheck = Some [0, 1]\<rparr>,
             selected = [1], inflight = [0]\<rparr>"
  have new: "New Some ?cfg = Inr ?rp"
    by code_simp
  have ran: "run ?es (start ?rp) = Some ?s"
    by code_simp
  from connections_never_negative[OF new ran]
  have "\<forall>b\<in>set (backends (proxy ?s)). 0 \<le> Connections b" by blast
  then have "list_all (\<lambda>b. 0 \<le> Connections b) ?pool"
    by (simp add: list_all_iff)
  with new ran show ?thesis by blast
qed

section \<open>Successive calls when every backend is alive\<close>

text \<open>
  When every candidate is alive the scan stops at its first candidate: each call adds
  exactly one to the cursor, modulo \<open>2 ^ 32\<close>, and returns the element at the new cursor
  modulo the length of the slice.
\<close>

lemma scan_all_alive:
  assumes "0 < length bs" "length bs < 2 ^ 32" "\<forall>p\<in>set bs. Alive (pool ! p)"
  shows "scan pool bs (length bs) c = (c + 1, Inr (Some (bs ! (unat (c + 1) mod length bs))))"
proof (rule scan_first_alive)
  have "unat (c + 1) mod length bs < length bs"
    using assms(1) by (rule mod_less_divisor)
  then have "bs ! (unat (c + 1) mod length bs) \<in> set bs" by (rule nth_mem)
  with assms(3) show "IsAlive (pool ! (bs ! (unat (c + 1) mod length bs)))"
    by (simp add: IsAlive_def)
qed (use assms in simp_all)

lemma RoundRobin_NextBackend_all_alive:
  assumes "pool \<noteq> []" "length pool < 2 ^ 32" "\<forall>b\<in>set pool. Alive b"
    and "rb_backends rb = [0..<length pool]"
  shows "RoundRobin_NextBackend pool rb
       = (rb\<lparr>rb_current := rb_current rb + 1\<rparr>,
          Inr (Some (unat (rb_current rb + 1) mod length pool)))"
proof -
  let ?n = "length pool"
  have n: "0 < ?n" using assms(1) by simp
  have lt: "unat (rb_current rb + 1) mod ?n < ?n" using n by (rule mod_less_divisor)
  have "scan pool [0..<?n] (length [0..<?n]) (rb_current rb)
      = (rb_current rb + 1, Inr (Some ([0..<?n] ! (unat (rb_current rb + 1) mod length [0..<?n]))))"
    by (rule scan_all_alive) (use n assms(2,3) in simp_all)
  then have "scan pool [0..<?n] ?n (rb_current rb)
      = (rb_current rb + 1, Inr (Some (unat (rb_current rb + 1) mod ?n)))"
    using lt by simp
  then show ?thesis
    using n by (simp add: RoundRobin_NextBackend_def assms(4))
qed

lemma upt_1_Suc_Suc: "[1..<Suc (Suc k)] = 1 # map Suc [1..<Suc k]"
  by (simp add: upt_conv_Cons map_Suc_upt del: upt_Suc)

lemma RoundRobin_calls_all_alive:
  assumes "pool \<noteq> []" "length pool < 2 ^ 32" "\<forall>b\<in>set pool. Alive b"
    and "rb_backends rb = [0..<length pool]"
  shows "RoundRobin_calls pool rb k
       = (map (\<lambda>j. Inr (Some (unat (rb_current rb + of_nat j) mod length pool))) [1..<Suc k],
          rb\<lparr>rb_current := rb_current rb + of_nat k\<rparr>)"
  using assms(4)
proof (induction k arbitrary: rb)
  case 0
  then show ?case by simp
next
  case (Suc k)
  let ?rb' = "rb\<lparr>rb_current := rb_current rb + 1\<rparr>"
  have first: "RoundRobin_NextBackend pool rb
       = (?rb', Inr (Some (unat (rb_current rb + 1) mod length pool)))"
    using assms(1-3) Suc.prems by (rule RoundRobin_NextBackend_all_alive)
  have "rb_backends ?rb' = [0..<length pool]" using Suc.prems by simp
  from Suc.IH[OF this]
  have rest: "RoundRobin_calls pool ?rb' k =
       (map (\<lambda>j. Inr (Some (unat (rb_current rb + 1 + of_nat j) mod length pool))) [1..<Suc k],
        rb\<lparr>rb_current := rb_current rb + 1 + of_nat k\<rparr>)"
    by simp
  have calls: "RoundRobin_calls pool rb (Suc k)
      = (Inr (Some (unat (rb_current rb + 1) mod length pool))
           # map (\<lambda>j. Inr (Some (unat (rb_current rb + 1 + of_nat j) mod length pool))) [1..<Suc k],
         rb\<lparr>rb_current := rb_current rb + 1 + of_nat k\<rparr>)"
    by (simp only: RoundRobin_calls.simps first rest prod.case)
  show ?case
    unfolding calls upt_1_Suc_Suc
    by (simp add: comp_def add.assoc del: upt_Suc)
qed

lemma Weighted_NextBackend_all_alive:
  assumes "expand pool (wb_backends wb) \<noteq> []" "length (expand pool (wb_backends wb)) < 2 ^ 32"
    and "\<forall>p\<in>set (wb_backends wb). Alive (pool ! p)"
  shows "Weighted_NextBackend pool wb
       = (wb\<lparr>wb_current := wb_current wb + 1\<rparr>,
          Inr (Some (expand pool (wb_backends wb)
                       ! (unat (wb_current wb + 1) mod length (expand pool (wb_backends wb))))))"
proof -
  let ?E = "expand pool (wb_backends wb)"
  have n: "0 < length ?E" using assms(1) by simp
  have alive: "\<forall>p\<in>set ?E. Alive (pool ! p)"
    using assms(3) set_expand_subset by blast
  have "scan pool ?E (length ?E) (wb_current wb)
      = (wb_current wb + 1, Inr (Some (?E ! (unat (wb_current wb + 1) mod length ?E))))"
    using n assms(2) alive by (rule scan_all_alive)
  then show ?thesis
    using n by (simp add: Weighted_NextBackend_def Let_def)
qed

lemma Weighted_calls_all_alive:
  assumes "expand pool (wb_backends wb) \<noteq> []" "length (expand pool (wb_backends wb)) < 2 ^ 32"
    and "\<forall>p\<in>set (wb_backends wb). Alive (pool ! p)"
  shows "Weighted_calls pool wb k
       = (map (\<lambda>j. Inr (Some (expand pool (wb_backends wb)
                       ! (unat (wb_current wb + of_nat j) mod length (expand pool (wb_backends wb))))))
              [1..<Suc k],
          wb\<lparr>wb_current := wb_current wb + of_nat k\<rparr>)"
  using assms
proof (induction k arbitrary: wb)
  case 0
  then show ?case by simp
next
  case (Suc k)
  let ?wb' = "wb\<lparr>wb_current := wb_current wb + 1\<rparr>"
  let ?E = "expand pool (wb_backends wb)"
  have first: "Weighted_NextBackend pool wb
       = (?wb', Inr (Some (?E ! (unat (wb_current wb + 1) mod length ?E))))"
    using Suc.prems by (rule Weighted_NextBackend_all_alive)
  have "Weighted_calls pool ?wb' k
       = (map (\<lambda>j. Inr (Some (expand pool (wb_backends ?wb')
                       ! (unat (wb_current ?wb' + of_nat j) mod length (expand pool (wb_backends ?wb'))))))
              [1..<Suc k],
          ?wb'\<lparr>wb_current := wb_current ?wb' + of_nat k\<rparr>)"
    by (rule Suc.IH) (use Suc.prems in simp_all)
  then have rest: "Weighted_calls pool ?wb' k =
       (map (\<lambda>j. Inr (Some (?E ! (unat (wb_current wb + 1 + of_nat j) mod length ?E)))) [1..<Suc k],
        wb\<lparr>wb_current := wb_current wb + 1 + of_nat k\<rparr>)"
    by simp
  have calls: "Weighted_calls pool wb (Suc k)
      = (Inr (Some (?E ! (unat (wb_current wb + 1) mod length ?E)))
           # map (\<lambda>j. Inr (Some (?E ! (unat (wb_current wb + 1 + of_nat j) mod length ?E)))) [1..<Suc k],
         wb\<lparr>wb_current := wb_current wb + 1 + of_nat k\<rparr>)"
    by (simp only: Weighted_calls.simps first rest prod.case)
  show ?case
    unfolding calls upt_1_Suc_Suc
    by (simp add: comp_def add.assoc del: upt_Suc)
qed

lemma RoundRobin_calls_cursor:
  assumes "pool \<noteq> []" "length pool < 2 ^ 32" "\<forall>b\<in>set pool. Alive b"
    and "rb_backends rb = [0..<length pool]"
  shows "snd (RoundRobin_calls pool rb k) = rb\<lparr>rb_current := rb_current rb + of_nat k\<rparr>"
  by (simp only: RoundRobin_calls_all_alive[OF assms] snd_conv)

lemma RoundRobin_calls_nth:
  assumes "pool \<noteq> []" "length pool < 2 ^ 32" "\<forall>b\<in>set pool. Alive b"
    and "rb_backends rb = [0..<length pool]" and "i < k"
  shows "fst (RoundRobin_calls pool rb k) ! i
       = Inr (Some (unat (rb_current rb + of_nat (Suc i)) mod length pool))"
proof -
  have "[1..<Suc k] ! i = Suc i" using assms(5) by (simp del: upt_Suc)
  moreover have "i < length [1..<Suc k]" using assms(5) by (simp del: upt_Suc)
  ultimately show ?thesis
    by (simp only: RoundRobin_calls_all_alive[OF assms(1-4)] fst_conv nth_map)
qed

lemma Weighted_calls_cursor:
  assumes "expand pool (wb_backends wb) \<noteq> []" "length (expand pool (wb_backends wb)) < 2 ^ 32"
    and "\<forall>p\<in>set (wb_backends wb). Alive (pool ! p)"
  shows "snd (Weighted_calls pool wb k) = wb\<lparr>wb_current := wb_current wb + of_nat k\<rparr>"
  by (simp only: Weighted_calls_all_alive[OF assms] snd_conv)

section \<open>Calls during which the cursor does not wrap\<close>

text \<open>
  The number of attempts of a scan is the length of the slice. As long as the cursor does
  not pass \<open>2 ^ 32\<close> during the call, the attempts visit every position of the slice, so
  a scan that returns \<open>nil\<close> has found every backend dead.
\<close>

lemma scan_no_panic:
  "(of_nat (length bs) :: 32 word) \<noteq> 0 \<Longrightarrow> snd (scan pool bs k c) \<noteq> Inl e"
  by (induction k arbitrary: c) (simp_all add: Let_def)

lemma scan_all_dead:
  assumes "(of_nat (length bs) :: 32 word) \<noteq> 0" and "\<forall>p\<in>set bs. \<not> Alive (pool ! p)"
  shows "scan pool bs k c = (c + of_nat k, Inr None)"
proof (induction k arbitrary: c)
  case 0
  then show ?case by simp
next
  case (Suc k)
  have "unat ((c + 1) mod of_nat (length bs)) < length bs"
    using assms(1) by (rule unat_mod_of_nat32_less)
  then have "bs ! unat ((c + 1) mod of_nat (length bs)) \<in> set bs" by (rule nth_mem)
  with assms(2) have "\<not> IsAlive (pool ! (bs ! unat ((c + 1) mod of_nat (length bs))))"
    by (simp add: IsAlive_def)
  then show ?case
    using assms(1) Suc.IH[of "c + 1"] by (simp add: Let_def add.assoc)
qed

lemma unat_Suc_no_wrap: "unat (c :: 32 word) + 1 < 2 ^ 32 \<Longrightarrow> unat (c + 1) = unat c + 1"
  by (simp add: unat_word_ariths)

lemma scan_None_no_wrap:
  assumes "0 < length bs" "length bs < 2 ^ 32"
  shows "unat c + k < 2 ^ 32 \<Longrightarrow> scan pool bs k c = (c', Inr None) \<Longrightarrow>
         j \<in> {1..k} \<Longrightarrow> \<not> Alive (pool ! (bs ! ((unat c + j) mod length bs)))"
proof (induction k arbitrary: c j)
  case 0
  then show ?case by simp
next
  case (Suc k)
  have nz: "(of_nat (length bs) :: 32 word) \<noteq> 0"
    using assms by (rule of_nat32_nonzero)
  have u: "unat (c + 1) = unat c + 1"
    using Suc.prems(1) by (simp add: unat_Suc_no_wrap)
  have idx: "unat ((c + 1) mod of_nat (length bs)) = (unat c + 1) mod length bs"
    using assms(2) by (simp add: unat_mod_of_nat32 u)
  from Suc.prems(2) nz idx
  have dead: "\<not> Alive (pool ! (bs ! ((unat c + 1) mod length bs)))"
    and rest: "scan pool bs k (c + 1) = (c', Inr None)"
    by (auto simp: Let_def IsAlive_def split: if_splits)
  show ?case
  proof (cases "j = 1")
    case True
    with dead show ?thesis by simp
  next
    case False
    with Suc.prems(3) have j: "j - 1 \<in> {1..k}" by auto
    have "unat (c + 1) + k < 2 ^ 32" using Suc.prems(1) u by simp
    from Suc.IH[OF this rest j]
    have "\<not> Alive (pool ! (bs ! ((unat (c + 1) + (j - 1)) mod length bs)))" .
    moreover have "unat (c + 1) + (j - 1) = unat c + j" using u j by (simp add: u) linarith
    ultimately show ?thesis by simp
  qed
qed

lemma residues_cover:
  fixes n :: nat
  assumes "i < n"
  shows "\<exists>j\<in>{1..n}. (a + j) mod n = i"
proof (cases "a mod n < i")
  case True
  let ?j = "i - a mod n"
  have "(a + ?j) mod n = (a mod n + ?j) mod n" by (simp add: mod_add_left_eq)
  also have "\<dots> = i" using True assms by simp
  finally have "(a + ?j) mod n = i" .
  moreover have "?j \<in> {1..n}" using True assms by auto
  ultimately show ?thesis by blast
next
  case False
  let ?j = "i + n - a mod n"
  have r: "a mod n < n" using assms by simp
  have "(a + ?j) mod n = (a mod n + ?j) mod n" by (simp add: mod_add_left_eq)
  also have "a mod n + ?j = i + n" using r by simp
  also have "(i + n) mod n = i" using assms by simp
  finally have "(a + ?j) mod n = i" .
  moreover have "?j \<in> {1..n}" using False r by auto
  ultimately show ?thesis by blast
qed

lemma scan_finds_alive_without_wrap:
  assumes "0 < length bs" "length bs < 2 ^ 32" "unat c + length bs < 2 ^ 32"
    and "\<exists>p\<in>set bs. Alive (pool ! p)"
  shows "\<exists>p\<in>set bs. snd (scan pool bs (length bs) c) = Inr (Some p) \<and> Alive (pool ! p)"
proof -
  have nz: "(of_nat (length bs) :: 32 word) \<noteq> 0"
    using assms(1,2) by (rule of_nat32_nonzero)
  obtain c' r where s: "scan pool bs (length bs) c = (c', r)"
    by (cases "scan pool bs (length bs) c")
  show ?thesis
  proof (cases r)
    case (Inl e)
    with s scan_no_panic[OF nz, of pool "length bs" c e] show ?thesis by simp
  next
    case (Inr opt)
    show ?thesis
    proof (cases opt)
      case None
      from assms(4) obtain i where i: "i < length bs" "Alive (pool ! (bs ! i))"
        by (auto simp: in_set_conv_nth)
      from residues_cover[OF i(1), of "unat c"] obtain j where
        j: "j \<in> {1..length bs}" "(unat c + j) mod length bs = i" by blast
      from s Inr None have "scan pool bs (length bs) c = (c', Inr None)" by simp
      from scan_None_no_wrap[OF assms(1,2,3) this j(1)] j(2) i(2) show ?thesis by simp
    next
      case (Some p)
      with s Inr have e: "scan pool bs (length bs) c = (c', Inr (Some p))" by simp
      from scan_Some_in_set[OF e] scan_Some_alive[OF e] e show ?thesis by auto
    qed
  qed
qed

text \<open>
  The three strategies return \<open>nil\<close> exactly when every backend of the pool is dead: the
  least-connections balancer always, the other two for pools shorter than \<open>2 ^ 32\<close>
  (the weighted one with positive weights) in calls during which the cursor does not wrap.
\<close>

lemma lc_loop_None_iff:
  "(sel = None \<longrightarrow> m = -1) \<Longrightarrow>
   lc_loop pool ps sel m = None \<longleftrightarrow> sel = None \<and> (\<forall>p\<in>set ps. \<not> Alive (pool ! p))"
  by (induction ps arbitrary: sel m) (auto simp: Let_def IsAlive_def)

lemma lc_loop_Some_alive:
  "lc_loop pool ps sel m = Some r \<Longrightarrow> sel = Some r \<or> (r \<in> set ps \<and> Alive (pool ! r))"
  by (induction ps arbitrary: sel m) (auto simp: Let_def IsAlive_def split: if_splits)

lemma alive_position_iff:
  "(\<exists>p\<in>set [0..<length pool]. Alive (pool ! p)) = (\<exists>b\<in>set pool. Alive b)"
proof
  assume "\<exists>p\<in>set [0..<length pool]. Alive (pool ! p)"
  then obtain p where "p < length pool" "Alive (pool ! p)" by auto
  then show "\<exists>b\<in>set pool. Alive b" using nth_mem by blast
next
  assume "\<exists>b\<in>set pool. Alive b"
  then obtain i where i: "i < length pool" "Alive (pool ! i)"
    by (auto simp: in_set_conv_nth)
  then have "i \<in> set [0..<length pool]" by simp
  with i(2) show "\<exists>p\<in>set [0..<length pool]. Alive (pool ! p)" by blast
qed

lemma dead_position_iff:
  "(\<forall>p\<in>set [0..<length pool]. \<not> Alive (pool ! p)) = (\<forall>b\<in>set pool. \<not> Alive b)"
  using alive_position_iff[of pool] by blast

lemma LeastConnections_none_iff_all_dead:
  "LeastConnections_NextBackend pool (NewLeastConnectionsBalancer [0..<length pool]) = None
     \<longleftrightarrow> (\<forall>b\<in>set pool. \<not> Alive b)"
proof -
  have "lc_loop pool [0..<length pool] None (-1) = None
      \<longleftrightarrow> (None :: nat option) = None \<and> (\<forall>p\<in>set [0..<length pool]. \<not> Alive (pool ! p))"
    by (rule lc_loop_None_iff) simp
  then show ?thesis
    by (simp only: LeastConnections_NextBackend_def NewLeastConnectionsBalancer_def
        LeastConnectionsBalancer.simps dead_position_iff) simp
qed

lemma LeastConnections_Some_alive:
  assumes "LeastConnections_NextBackend pool (NewLeastConnectionsBalancer [0..<length pool]) = Some i"
  shows "i < length pool \<and> Alive (pool ! i)"
  using lc_loop_Some_alive[of pool "[0..<length pool]" None "-1" i] assms
  by (simp add: LeastConnections_NextBackend_def NewLeastConnectionsBalancer_def)

lemma RoundRobin_none_iff_all_dead_without_wrap:
  assumes "length pool < 2 ^ 32" and "rb_backends rb = [0..<length pool]"
    and "unat (rb_current rb) + length pool < 2 ^ 32"
  shows "snd (RoundRobin_NextBackend pool rb) = Inr None \<longleftrightarrow> (\<forall>b\<in>set pool. \<not> Alive b)"
proof (cases "pool = []")
  case True
  then show ?thesis using assms(2) by (simp add: RoundRobin_NextBackend_def)
next
  case False
  let ?n = "length pool"
  have n: "0 < ?n" using False by simp
  have nz: "(of_nat (length [0..<?n]) :: 32 word) \<noteq> 0"
    using n assms(1) by (simp add: of_nat32_nonzero)
  have call: "snd (RoundRobin_NextBackend pool rb) = snd (scan pool [0..<?n] (length [0..<?n]) (rb_current rb))"
    using n by (simp add: RoundRobin_NextBackend_def assms(2) Let_def split: prod.splits)
  show ?thesis
  proof
    assume none: "snd (RoundRobin_NextBackend pool rb) = Inr None"
    show "\<forall>b\<in>set pool. \<not> Alive b"
    proof (rule ccontr)
      assume "\<not> (\<forall>b\<in>set pool. \<not> Alive b)"
      then have "\<exists>p\<in>set [0..<?n]. Alive (pool ! p)"
        by (simp only: alive_position_iff) simp
      then have "\<exists>p\<in>set [0..<?n].
          snd (scan pool [0..<?n] (length [0..<?n]) (rb_current rb)) = Inr (Some p) \<and> Alive (pool ! p)"
        by (rule scan_finds_alive_without_wrap[rotated 3]) (use n assms(1,3) in simp_all)
      with none call show False by auto
    qed
  next
    assume "\<forall>b\<in>set pool. \<not> Alive b"
    then have "\<forall>p\<in>set [0..<?n]. \<not> Alive (pool ! p)" by (simp only: dead_position_iff)
    from scan_all_dead[OF nz this] call show "snd (RoundRobin_NextBackend pool rb) = Inr None"
      by simp
  qed
qed

lemma expand_positive_set:
  "\<forall>p\<in>set bs. 0 < Weight (pool ! p) \<Longrightarrow> set (expand pool bs) = set bs"
  using set_expand_subset[of pool bs] expand_member[of _ bs pool] by blast

lemma Weighted_none_iff_all_dead_without_wrap:
  assumes "\<forall>b\<in>set pool. 0 < Weight b" and "wb_backends wb = [0..<length pool]"
    and "unat (wb_current wb) + length (expand pool [0..<length pool]) < 2 ^ 32"
  shows "snd (Weighted_NextBackend pool wb) = Inr None \<longleftrightarrow> (\<forall>b\<in>set pool. \<not> Alive b)"
proof (cases "pool = []")
  case True
  then show ?thesis using assms(2) by (simp add: Weighted_NextBackend_def)
next
  case False
  let ?E = "expand pool [0..<length pool]"
  have setE: "set ?E = {..<length pool}"
    using assms(1) expand_positive_set[of "[0..<length pool]" pool] by auto
  have n: "0 < length ?E" using setE False by (cases ?E) auto
  have small: "length ?E < 2 ^ 32" using assms(3) by simp
  have nz: "(of_nat (length ?E) :: 32 word) \<noteq> 0"
    using n small by (rule of_nat32_nonzero)
  have call: "snd (Weighted_NextBackend pool wb) = snd (scan pool ?E (length ?E) (wb_current wb))"
    using n by (simp add: Weighted_NextBackend_def assms(2) Let_def split: prod.splits)
  show ?thesis
  proof
    assume none: "snd (Weighted_NextBackend pool wb) = Inr None"
    show "\<forall>b\<in>set pool. \<not> Alive b"
    proof (rule ccontr)
      assume "\<not> (\<forall>b\<in>set pool. \<not> Alive b)"
      then have "\<exists>p\<in>set ?E. Alive (pool ! p)"
        using setE by (auto simp: in_set_conv_nth)
      with n small assms(3) have "\<exists>p\<in>set ?E.
          snd (scan pool ?E (length ?E) (wb_current wb)) = Inr (Some p) \<and> Alive (pool ! p)"
        by (rule scan_finds_alive_without_wrap)
      with none call show False by auto
    qed
  next
    assume "\<forall>b\<in>set pool. \<not> Alive b"
    then have "\<forall>p\<in>set ?E. \<not> Alive (pool ! p)" using setE by simp
    from scan_all_dead[OF nz this] call show "snd (Weighted_NextBackend pool wb) = Inr None"
      by simp
  qed
qed

lemma unat_add_of_nat_no_wrap:
  assumes "unat (c :: 32 word) + m < 2 ^ 32"
  shows "unat (c + of_nat m) = unat c + m"
proof -
  have m: "m < 2 ^ 32" using assms by simp
  have "unat (c + of_nat m) = (unat c + unat (of_nat m :: 32 word)) mod 2 ^ 32"
    by (simp add: unat_word_ariths)
  also have "\<dots> = (unat c + m) mod 2 ^ 32"
    using m by (simp add: unat_of_nat32)
  also have "\<dots> = unat c + m"
    using assms by simp
  finally show ?thesis .
qed

lemma RoundRobin_calls_nth_without_wrap:
  assumes "pool \<noteq> []" "length pool < 2 ^ 32" "\<forall>b\<in>set pool. Alive b"
    and "rb_backends rb = [0..<length pool]"
    and "unat (rb_current rb) + k < 2 ^ 32" and "t < k"
  shows "fst (RoundRobin_calls pool rb k) ! t
       = Inr (Some ((unat (rb_current rb) + Suc t) mod length pool))"
proof -
  have "unat (rb_current rb) + Suc t < 2 ^ 32" using assms(5,6) by simp
  then have "unat (rb_current rb + of_nat (Suc t)) = unat (rb_current rb) + Suc t"
    by (rule unat_add_of_nat_no_wrap)
  with RoundRobin_calls_nth[OF assms(1-4,6)] show ?thesis by simp
qed

text \<open>
  As long as the cursor does not wrap, the round robin is cyclic: when two calls of a run
  return the same backend, every backend of the pool is returned by a call from the first
  of the two up to, and not including, the second.
\<close>

lemma RoundRobin_cyclic_without_wrap:
  assumes "pool \<noteq> []" "length pool < 2 ^ 32" "\<forall>b\<in>set pool. Alive b"
    and "rb_backends rb = [0..<length pool]"
    and "unat (rb_current rb) + k < 2 ^ 32"
    and "a < b" "b < k"
    and same: "fst (RoundRobin_calls pool rb k) ! a = fst (RoundRobin_calls pool rb k) ! b"
    and "i < length pool"
  shows "\<exists>t. a \<le> t \<and> t < b \<and> fst (RoundRobin_calls pool rb k) ! t = Inr (Some i)"
proof -
  let ?n = "length pool"
  let ?c = "unat (rb_current rb)"
  have nth: "t < k \<Longrightarrow> fst (RoundRobin_calls pool rb k) ! t = Inr (Some ((?c + Suc t) mod ?n))" for t
    by (rule RoundRobin_calls_nth_without_wrap[OF assms(1-5)])
  have "a < k" using assms(6,7) by simp
  with same nth[of a] nth[of b] assms(7)
  have "(?c + Suc b) mod ?n = (?c + Suc a) mod ?n" by simp
  moreover have "?c + Suc a \<le> ?c + Suc b" using assms(6) by simp
  ultimately have "?n dvd (?c + Suc b) - (?c + Suc a)"
    by (simp only: mod_eq_dvd_iff_nat)
  then have "?n dvd b - a" by simp
  moreover have "0 < b - a" using assms(6) by simp
  ultimately have far: "?n \<le> b - a" by (rule dvd_imp_le)
  from residues_cover[OF assms(9), of "?c + a"] obtain j where
    j: "j \<in> {1..?n}" "(?c + a + j) mod ?n = i" by blast
  from j(1) obtain j' where j': "j = Suc j'" "j' < ?n" by (cases j) auto
  let ?t = "a + j'"
  have t: "a \<le> ?t" "?t < b" using j'(2) far assms(6) by auto
  then have "?t < k" using assms(7) by simp
  from nth[OF this] have "fst (RoundRobin_calls pool rb k) ! ?t = Inr (Some ((?c + Suc ?t) mod ?n))" .
  moreover have "?c + Suc ?t = ?c + a + j" using j'(1) by simp
  ultimately have "fst (RoundRobin_calls pool rb k) ! ?t = Inr (Some i)"
    using j(2) by (simp only:)
  with t show ?thesis by blast
qed

lemma count_list_replicate: "count_list (replicate k x) y = (if x = y then k else 0)"
  by (induction k) auto

lemma count_list_expand:
  "distinct bs \<Longrightarrow>
   count_list (expand pool bs) p = (if p \<in> set bs then nat (Weight (pool ! p)) else 0)"
  by (induction bs) (auto simp: count_list_replicate)

lemma count_list_rotate: "count_list (rotate m xs) x = count_list xs x"
proof -
  have "count_list (rotate m xs) x
      = count_list (drop (m mod length xs) xs) x + count_list (take (m mod length xs) xs) x"
    by (simp only: rotate_drop_take count_list_append)
  also have "\<dots> = count_list (take (m mod length xs) xs @ drop (m mod length xs) xs) x"
    by (simp only: count_list_append add.commute)
  finally show ?thesis by simp
qed

lemma Weighted_window_is_rotation:
  assumes "expand pool (wb_backends wb) \<noteq> []"
    and "\<forall>p\<in>set (wb_backends wb). Alive (pool ! p)"
    and "unat (wb_current wb) + k < 2 ^ 32" and "length (expand pool (wb_backends wb)) < 2 ^ 32"
    and "a + length (expand pool (wb_backends wb)) \<le> k"
  shows "take (length (expand pool (wb_backends wb))) (drop a (fst (Weighted_calls pool wb k)))
       = map (\<lambda>p. Inr (Some p)) (rotate (unat (wb_current wb) + Suc a) (expand pool (wb_backends wb)))"
proof (rule nth_equalityI)
  let ?E = "expand pool (wb_backends wb)"
  let ?N = "length ?E"
  let ?c = "unat (wb_current wb)"
  let ?f = "\<lambda>j. (Inr (Some (?E ! (unat (wb_current wb + of_nat j) mod ?N))) :: panic + nat option)"
  have calls: "fst (Weighted_calls pool wb k) = map ?f [1..<Suc k]"
    by (simp only: Weighted_calls_all_alive[OF assms(1,4,2)] fst_conv)
  have window: "take ?N (drop a (fst (Weighted_calls pool wb k))) = map ?f [Suc a..<Suc a + ?N]"
    unfolding calls using assms(5) by (simp add: take_map drop_map del: upt_Suc)
  show "length (take ?N (drop a (fst (Weighted_calls pool wb k))))
      = length (map (\<lambda>p. Inr (Some p)) (rotate (?c + Suc a) ?E))"
    unfolding window by (simp del: upt_Suc)
  fix i
  assume "i < length (take ?N (drop a (fst (Weighted_calls pool wb k))))"
  then have i: "i < ?N" unfolding window by (simp del: upt_Suc)
  have "?c + (Suc a + i) < 2 ^ 32" using i assms(3,5) by simp
  then have u: "unat (wb_current wb + of_nat (Suc a + i)) = ?c + (Suc a + i)"
    by (rule unat_add_of_nat_no_wrap)
  have "take ?N (drop a (fst (Weighted_calls pool wb k))) ! i = ?f (Suc a + i)"
    unfolding window using i by (simp del: upt_Suc)
  also have "\<dots> = Inr (Some (?E ! ((?c + Suc a + i) mod ?N)))"
    by (simp only: u add.assoc)
  also have "\<dots> = map (\<lambda>p. Inr (Some p)) (rotate (?c + Suc a) ?E) ! i"
    using i by (simp only: nth_map length_rotate nth_rotate)
  finally show "take ?N (drop a (fst (Weighted_calls pool wb k))) ! i
      = map (\<lambda>p. Inr (Some p)) (rotate (?c + Suc a) ?E) ! i" .
qed

text \<open>
  As long as the cursor does not wrap, the weighted balancer is proportional: among any
  consecutive calls as many as the weights sum to, backend \<open>p\<close> is returned exactly
  \<open>Weight p\<close> times.
\<close>

lemma Weighted_proportional_without_wrap:
  assumes "pool \<noteq> []" and "\<forall>b\<in>set pool. Alive b \<and> 0 < Weight b"
    and "wb_backends wb = [0..<length pool]"
    and "unat (wb_current wb) + k < 2 ^ 32"
    and "a + length (expand pool [0..<length pool]) \<le> k"
    and "p < length pool"
  shows "count_list (take (length (expand pool [0..<length pool]))
                       (drop a (fst (Weighted_calls pool wb k)))) (Inr (Some p))
       = nat (Weight (pool ! p))"
proof -
  let ?E = "expand pool [0..<length pool]"
  have "0 < Weight (pool ! 0)" using assms(1,2) by (cases pool) auto
  then have "0 \<in> set ?E" using assms(1) by (intro expand_member) auto
  then have nonempty: "expand pool (wb_backends wb) \<noteq> []" unfolding assms(3) by auto
  have alive: "\<forall>p\<in>set (wb_backends wb). Alive (pool ! p)"
    using assms(2) unfolding assms(3) by simp
  have small: "length (expand pool (wb_backends wb)) < 2 ^ 32"
    using assms(4,5) unfolding assms(3) by simp
  have le: "a + length (expand pool (wb_backends wb)) \<le> k"
    using assms(5) unfolding assms(3) .
  have "take (length ?E) (drop a (fst (Weighted_calls pool wb k)))
      = map (\<lambda>p. Inr (Some p)) (rotate (unat (wb_current wb) + Suc a) ?E)"
    using Weighted_window_is_rotation[OF nonempty alive assms(4) small le]
    unfolding assms(3) .
  moreover have "inj (\<lambda>p::nat. (Inr (Some p) :: panic + nat option))"
    by (simp add: inj_def)
  then have "count_list (map (\<lambda>p. Inr (Some p)) (rotate (unat (wb_current wb) + Suc a) ?E))
                 (Inr (Some p) :: panic + nat option)
      = count_list (rotate (unat (wb_current wb) + Suc a) ?E) p"
    by (rule count_list_map_conv)
  ultimately have "count_list (take (length ?E) (drop a (fst (Weighted_calls pool wb k)))) (Inr (Some p))
      = count_list (rotate (unat (wb_current wb) + Suc a) ?E) p"
    by (simp only:)
  also have "\<dots> = count_list ?E p" by (rule count_list_rotate)
  also have "\<dots> = nat (Weight (pool ! p))"
    using assms(6) by (simp add: count_list_expand)
  finally show ?thesis .
qed

section \<open>The cursor's wrap-around\<close>

text \<open>
  C1 at the wrap-around of the cursor. A balancer over three backends is built and serves
  4294967294 calls while all three are alive, which leaves the cursor at \<open>2 ^ 32 - 2\<close>.
  Then backends 0 and 1 are dead and backend 2 is alive. The next call tries the positions
  \<open>(2 ^ 32 - 1) mod 3 = 0\<close>, \<open>0 mod 3 = 0\<close> and \<open>1 mod 3 = 1\<close>, never position 2, and
  returns \<open>nil\<close>; so does the weighted balancer with weights 1, 1, 1.
\<close>

theorem wrap_misses_alive_backend:
  "snd (RoundRobin_NextBackend
          [backend_with False 1 0, backend_with False 1 0, backend_with True 1 0]
          (snd (RoundRobin_calls
                  [backend_with True 1 0, backend_with True 1 0, backend_with True 1 0]
                  (NewRoundRobinBalancer [0, 1, 2]) 4294967294)))
   = Inr None
   \<and> snd (Weighted_NextBackend
          [backend_with False 1 0, backend_with False 1 0, backend_with True 1 0]
          (snd (Weighted_calls
                  [backend_with True 1 0, backend_with True 1 0, backend_with True 1 0]
                  (NewWeightedBalancer [0, 1, 2]) 4294967294)))
   = Inr None"
proof
  let ?up = "[backend_with True 1 0, backend_with True 1 0, backend_with True 1 0]"
  have positions: "rb_backends (NewRoundRobinBalancer [0, 1, 2]) = [0..<length ?up]"
    by (simp add: NewRoundRobinBalancer_def upt_rec numeral_2_eq_2)
  have "snd (RoundRobin_calls ?up (NewRoundRobinBalancer [0, 1, 2]) 4294967294)
      = (NewRoundRobinBalancer [0, 1, 2])\<lparr>rb_current :=
           rb_current (NewRoundRobinBalancer [0, 1, 2]) + of_nat 4294967294\<rparr>"
    by (rule RoundRobin_calls_cursor[OF _ _ _ positions]) simp_all
  then have st: "snd (RoundRobin_calls ?up (NewRoundRobinBalancer [0, 1, 2]) 4294967294)
      = \<lparr>rb_backends = [0, 1, 2], rb_current = 4294967294\<rparr>"
    by (simp add: NewRoundRobinBalancer_def)
  show "snd (RoundRobin_NextBackend
          [backend_with False 1 0, backend_with False 1 0, backend_with True 1 0]
          (snd (RoundRobin_calls ?up (NewRoundRobinBalancer [0, 1, 2]) 4294967294))) = Inr None"
    unfolding st by code_simp
next
  let ?up = "[backend_with True 1 0, backend_with True 1 0, backend_with True 1 0]"
  let ?wb = "NewWeightedBalancer [0, 1, 2]"
  have E: "expand ?up (wb_backends ?wb) = [0, 1, 2]"
    by code_simp
  have alive: "\<forall>p\<in>set (wb_backends ?wb). Alive (?up ! p)"
    by (simp add: NewWeightedBalancer_def)
  have "snd (Weighted_calls ?up ?wb 4294967294) = ?wb\<lparr>wb_current := wb_current ?wb + of_nat 4294967294\<rparr>"
    by (rule Weighted_calls_cursor[OF _ _ alive]) (simp_all only: E, simp_all)
  then have st: "snd (Weighted_calls ?up ?wb 4294967294)
      = \<lparr>wb_backends = [0, 1, 2], wb_current = 4294967294\<rparr>"
    by (simp add: NewWeightedBalancer_def)
  show "snd (Weighted_NextBackend
          [backend_with False 1 0, backend_with False 1 0, backend_with True 1 0]
          (snd (Weighted_calls ?up ?wb 4294967294))) = Inr None"
    unfolding st by code_simp
qed

text \<open>
  C3 at the wrap-around of the cursor. On three backends, all alive, the calls number
  4294967295 and 4294967296 after construction (at positions 4294967294 and 4294967295 of
  the list of results) both return backend 0.
\<close>

theorem RoundRobin_wrap_repeats_backend:
  "fst (RoundRobin_calls [backend_with True 1 0, backend_with True 1 0, backend_with True 1 0]
          (NewRoundRobinBalancer [0, 1, 2]) 4294967296) ! 4294967294 = Inr (Some 0)
   \<and> fst (RoundRobin_calls [backend_with True 1 0, backend_with True 1 0, backend_with True 1 0]
          (NewRoundRobinBalancer [0, 1, 2]) 4294967296) ! 4294967295 = Inr (Some 0)"
proof -
  let ?up = "[backend_with True 1 0, backend_with True 1 0, backend_with True 1 0]"
  have positions: "rb_backends (NewRoundRobinBalancer [0, 1, 2]) = [0..<length ?up]"
    by (simp add: NewRoundRobinBalancer_def upt_rec numeral_2_eq_2)
  have nth: "i < 4294967296 \<Longrightarrow>
      fst (RoundRobin_calls ?up (NewRoundRobinBalancer [0, 1, 2]) 4294967296) ! i
       = Inr (Some (unat (rb_current (NewRoundRobinBalancer [0, 1, 2]) + of_nat (Suc i)) mod length ?up))" for i
    by (rule RoundRobin_calls_nth[OF _ _ _ positions]) simp_all
  have v1: "unat (rb_current (NewRoundRobinBalancer [0, 1, 2]) + of_nat (Suc 4294967294)) mod length ?up = 0"
    by (simp add: NewRoundRobinBalancer_def)
  have v2: "unat (rb_current (NewRoundRobinBalancer [0, 1, 2]) + of_nat (Suc 4294967295)) mod length ?up = 0"
    by (simp add: NewRoundRobinBalancer_def)
  have lt1: "(4294967294::nat) < 4294967296" and lt2: "(4294967295::nat) < 4294967296"
    by simp_all
  have "fst (RoundRobin_calls ?up (NewRoundRobinBalancer [0, 1, 2]) 4294967296) ! 4294967294 = Inr (Some 0)"
    using nth[OF lt1] by (simp only: v1)
  moreover
  have "fst (RoundRobin_calls ?up (NewRoundRobinBalancer [0, 1, 2]) 4294967296) ! 4294967295 = Inr (Some 0)"
    using nth[OF lt2] by (simp only: v2)
  ultimately show ?thesis by (rule conjI)
qed

section \<open>The long-run share of the weighted balancer\<close>

text \<open>
  With weights 2 and 1 the expansion is \<open>[0, 0, 1]\<close> and call number \<open>j\<close> returns its
  element at \<open>(j mod 2 ^ 32) mod 3\<close>. Since \<open>2 ^ 32\<close> is not a multiple of 3, every
  \<open>2 ^ 32\<close> calls start the expansion again at its first element: of each \<open>2 ^ 32\<close>
  calls, 2863311531 return backend 0 and 1431655765 return backend 1.
\<close>

lemma within_period_step:
  "(X::nat) + Suc r - (Suc r + 1) div 3 = X + r - (r + 1) div 3 + (if Suc r mod 3 \<noteq> 2 then 1 else 0)"
proof -
  have le: "Suc r div 3 \<le> r"
    by (rule order_trans[of _ "Suc r div 2"]) (simp_all add: div_le_mono2)
  consider "r mod 3 = 0" | "r mod 3 = 1" | "r mod 3 = 2" by linarith
  then show ?thesis
  proof cases
    case 1
    then show ?thesis using le by (simp add: mod_Suc div_Suc)
  next
    case 2
    then show ?thesis using le by (simp add: mod_Suc div_Suc)
  next
    case 3
    then show ?thesis using le by (simp add: mod_Suc div_Suc)
  qed
qed

lemma wrap_step:
  fixes M :: nat
  assumes "Suc r = M"
  shows "Suc q * (M - M div 3) = q * (M - M div 3) + r - M div 3 + 1"
proof -
  define X where "X = q * (M - M div 3)"
  have le: "M div 3 \<le> r" using assms by linarith
  have "Suc q * (M - M div 3) = X + (M - M div 3)"
    unfolding X_def by (simp only: mult_Suc add.commute)
  also have "\<dots> = X + r - M div 3 + 1"
    using assms le by linarith
  finally show ?thesis unfolding X_def .
qed

lemma period_count_step:
  fixes M :: nat
  assumes "0 < M"
  shows "(Suc k div M) * (M - M div 3) + (Suc k mod M) - ((Suc k mod M) + 1) div 3
       = (k div M) * (M - M div 3) + (k mod M) - ((k mod M) + 1) div 3
         + (if (Suc k mod M) mod 3 \<noteq> 2 then 1 else 0)"
proof (cases "Suc (k mod M) = M")
  case True
  have m: "Suc k mod M = 0" using True by (simp add: mod_Suc)
  then have d: "Suc k div M = Suc (k div M)" by (simp add: div_Suc)
  have r: "(k mod M + 1) div 3 = M div 3" using True by simp
  have "(Suc k div M) * (M - M div 3) + (Suc k mod M) - ((Suc k mod M) + 1) div 3
      = Suc (k div M) * (M - M div 3)"
    by (simp only: m d)
  also have "\<dots> = (k div M) * (M - M div 3) + (k mod M) - M div 3 + 1"
    using True by (rule wrap_step)
  also have "\<dots> = (k div M) * (M - M div 3) + (k mod M) - ((k mod M) + 1) div 3
         + (if (Suc k mod M) mod 3 \<noteq> 2 then 1 else 0)"
    by (simp add: m True)
  finally show ?thesis .
next
  case False
  then have m: "Suc k mod M = Suc (k mod M)" by (simp add: mod_Suc)
  then have d: "Suc k div M = k div M" by (simp add: div_Suc)
  show ?thesis
    unfolding m d by (rule within_period_step)
qed


lemma expanded_2_1_nth: "i < 3 \<Longrightarrow> ([0, 0, 1::nat] ! i = 0) = (i \<noteq> 2)"
  by (auto simp: less_Suc_eq numeral_3_eq_3 numeral_2_eq_2)

lemma hits_closed_form:
  "count_list (map (\<lambda>j. (Inr (Some ([0, 0, 1::nat] ! (unat (of_nat j :: 32 word) mod 3))) :: panic + nat option))
                  [1..<Suc k]) (Inr (Some 0))
   = (k div 2 ^ 32) * (2 ^ 32 - 2 ^ 32 div 3) + (k mod 2 ^ 32) - ((k mod 2 ^ 32) + 1) div 3"
proof (induction k)
  case 0
  then show ?case by simp
next
  case (Suc k)
  have u: "unat (of_nat (Suc k) :: 32 word) = Suc k mod 2 ^ 32"
    unfolding unat_of_nat by simp
  have lt: "(Suc k mod 2 ^ 32) mod 3 < (3::nat)" by simp
  have last: "([0, 0, 1::nat] ! (unat (of_nat (Suc k) :: 32 word) mod 3) = 0)
      = ((Suc k mod 2 ^ 32) mod 3 \<noteq> 2)"
    unfolding u by (rule expanded_2_1_nth[OF lt])
  have "count_list (map (\<lambda>j. (Inr (Some ([0, 0, 1::nat] ! (unat (of_nat j :: 32 word) mod 3))) :: panic + nat option))
                  [1..<Suc (Suc k)]) (Inr (Some 0))
      = (k div 2 ^ 32) * (2 ^ 32 - 2 ^ 32 div 3) + (k mod 2 ^ 32) - ((k mod 2 ^ 32) + 1) div 3
        + (if (Suc k mod 2 ^ 32) mod 3 \<noteq> 2 then 1 else 0)"
    using Suc.IH last by simp
  also have "\<dots> = (Suc k div 2 ^ 32) * (2 ^ 32 - 2 ^ 32 div 3) + (Suc k mod 2 ^ 32)
        - ((Suc k mod 2 ^ 32) + 1) div 3"
    by (rule period_count_step[symmetric]) simp
  finally show ?case .
qed

lemma weights_2_1_calls:
  "fst (Weighted_calls [backend_with True 2 0, backend_with True 1 0] (NewWeightedBalancer [0, 1]) k)
   = map (\<lambda>j. Inr (Some ([0, 0, 1] ! (unat (of_nat j :: 32 word) mod 3)))) [1..<Suc k]"
proof -
  let ?pool = "[backend_with True 2 0, backend_with True 1 0]"
  let ?wb = "NewWeightedBalancer [0, 1]"
  have E: "expand ?pool (wb_backends ?wb) = [0, 0, 1]"
    by code_simp
  have c: "wb_current ?wb = 0" by (simp add: NewWeightedBalancer_def)
  have alive: "\<forall>p\<in>set (wb_backends ?wb). Alive (?pool ! p)"
    by (simp add: NewWeightedBalancer_def)
  have "Weighted_calls ?pool ?wb k
       = (map (\<lambda>j. Inr (Some (expand ?pool (wb_backends ?wb)
                       ! (unat (wb_current ?wb + of_nat j) mod length (expand ?pool (wb_backends ?wb))))))
              [1..<Suc k],
          ?wb\<lparr>wb_current := wb_current ?wb + of_nat k\<rparr>)"
    by (rule Weighted_calls_all_alive[OF _ _ alive]) (simp_all only: E, simp_all)
  then show ?thesis
    unfolding E c by (simp del: upt_Suc)
qed

lemma weights_2_1_hits:
  "count_list (fst (Weighted_calls [backend_with True 2 0, backend_with True 1 0]
                      (NewWeightedBalancer [0, 1]) (m * 2 ^ 32))) (Inr (Some 0))
   = m * 2863311531"
  unfolding weights_2_1_calls hits_closed_form by simp

lemma weights_2_1_share:
  "share [backend_with True 2 0, backend_with True 1 0] (NewWeightedBalancer [0, 1]) 0 (Suc m * 2 ^ 32)
   = 2863311531 / 4294967296"
proof -
  have "share [backend_with True 2 0, backend_with True 1 0] (NewWeightedBalancer [0, 1]) 0 (Suc m * 2 ^ 32)
      = real (Suc m * 2863311531) / real (Suc m * 2 ^ 32)"
    unfolding share_def weights_2_1_hits ..
  also have "\<dots> = (real (Suc m) * 2863311531) / (real (Suc m) * 2 ^ 32)"
    by (simp only: of_nat_mult of_nat_numeral of_nat_power)
  also have "\<dots> = 2863311531 / 2 ^ 32"
  proof -
    have "real (Suc m) \<noteq> 0" by simp
    then show ?thesis by (rule mult_divide_mult_cancel_left)
  qed
  also have "\<dots> = 2863311531 / 4294967296"
    by simp
  finally show ?thesis .
qed

text \<open>
  C7 at weights 2 and 1, both backends alive, from construction: the share of backend 0
  among the first \<open>k\<close> calls does not converge to \<open>2 / 3\<close>; at every multiple of \<open>2 ^ 32\<close>
  it is \<open>2863311531 / 4294967296\<close>.
\<close>

theorem Weighted_share_does_not_converge_to_weight_ratio:
  "\<not> (share [backend_with True 2 0, backend_with True 1 0] (NewWeightedBalancer [0, 1]) 0
        \<longlonglongrightarrow> 2 / 3)"
proof
  let ?share = "share [backend_with True 2 0, backend_with True 1 0] (NewWeightedBalancer [0, 1]) 0"
  assume lim: "?share \<longlonglongrightarrow> 2 / 3"
  have mono: "strict_mono (\<lambda>m. Suc m * 2 ^ 32 :: nat)"
    by (simp add: strict_mono_Suc_iff)
  have "(?share \<circ> (\<lambda>m. Suc m * 2 ^ 32)) \<longlonglongrightarrow> 2 / 3"
    using lim mono by (rule LIMSEQ_subseq_LIMSEQ)
  moreover have "?share \<circ> (\<lambda>m. Suc m * 2 ^ 32) = (\<lambda>m. 2863311531 / 4294967296)"
    by (rule ext) (simp only: comp_def weights_2_1_share)
  ultimately have "(\<lambda>m::nat. 2863311531 / 4294967296 :: real) \<longlonglongrightarrow> 2 / 3"
    by simp
  then have "(2863311531 / 4294967296 :: real) = 2 / 3"
    by (simp only: LIMSEQ_const_iff)
  then show False by simp
qed

text \<open>
  When the length of the expansion divides \<open>2 ^ 32\<close> the index after the wrap continues
  the cycle.
\<close>

lemma unat_of_nat32_mod_divisor:
  assumes "n dvd 2 ^ 32"
  shows "unat (of_nat j :: 32 word) mod n = j mod n"
  using assms by (simp add: unat_of_nat mod_mod_cancel)

lemma weights_3_1_calls:
  "fst (Weighted_calls [backend_with True 3 0, backend_with True 1 0] (NewWeightedBalancer [0, 1]) k)
   = map (\<lambda>j. Inr (Some ([0, 0, 0, 1] ! (j mod 4)))) [1..<Suc k]"
proof -
  let ?pool = "[backend_with True 3 0, backend_with True 1 0]"
  let ?wb = "NewWeightedBalancer [0, 1]"
  have E: "expand ?pool (wb_backends ?wb) = [0, 0, 0, 1]"
    by code_simp
  have c: "wb_current ?wb = 0" by (simp add: NewWeightedBalancer_def)
  have alive: "\<forall>p\<in>set (wb_backends ?wb). Alive (?pool ! p)"
    by (simp add: NewWeightedBalancer_def)
  have idx: "unat (of_nat j :: 32 word) mod 4 = j mod 4" for j
    by (rule unat_of_nat32_mod_divisor) simp
  have "Weighted_calls ?pool ?wb k
       = (map (\<lambda>j. Inr (Some (expand ?pool (wb_backends ?wb)
                       ! (unat (wb_current ?wb + of_nat j) mod length (expand ?pool (wb_backends ?wb))))))
              [1..<Suc k],
          ?wb\<lparr>wb_current := wb_current ?wb + of_nat k\<rparr>)"
    by (rule Weighted_calls_all_alive[OF _ _ alive]) (simp_all only: E, simp_all)
  then show ?thesis
    unfolding E c by (simp add: idx del: upt_Suc)
qed

lemma expanded_3_1_nth: "i < 4 \<Longrightarrow> ([0, 0, 0, 1::nat] ! i = 0) = (i \<noteq> 3)"
  by (auto simp: less_Suc_eq numeral_3_eq_3 numeral_2_eq_2 eval_nat_numeral)

lemma quarter_step:
  "Suc k - (Suc k + 1) div 4 = k - (k + 1) div 4 + (if Suc k mod 4 \<noteq> 3 then 1 else 0)"
proof -
  have le: "Suc k div 4 \<le> k"
    by (rule order_trans[of _ "Suc k div 2"]) (simp_all add: div_le_mono2)
  consider "k mod 4 = 0" | "k mod 4 = 1" | "k mod 4 = 2" | "k mod 4 = 3" by linarith
  then show ?thesis
  proof cases
    case 1
    then show ?thesis using le by (simp add: mod_Suc div_Suc)
  next
    case 2
    then show ?thesis using le by (simp add: mod_Suc div_Suc)
  next
    case 3
    then show ?thesis using le by (simp add: mod_Suc div_Suc)
  next
    case 4
    then show ?thesis using le by (simp add: mod_Suc div_Suc)
  qed
qed

lemma weights_3_1_hits:
  "count_list (fst (Weighted_calls [backend_with True 3 0, backend_with True 1 0]
                      (NewWeightedBalancer [0, 1]) k)) (Inr (Some 0))
   = k - (k + 1) div 4"
  unfolding weights_3_1_calls
proof (induction k)
  case 0
  then show ?case by simp
next
  case (Suc k)
  have lt: "Suc k mod 4 < (4::nat)" by simp
  have last: "([0, 0, 0, 1::nat] ! (Suc k mod 4) = 0) = (Suc k mod 4 \<noteq> 3)"
    by (rule expanded_3_1_nth[OF lt])
  have "count_list (map (\<lambda>j. (Inr (Some ([0, 0, 0, 1::nat] ! (j mod 4))) :: panic + nat option))
                  [1..<Suc (Suc k)]) (Inr (Some 0))
      = k - (k + 1) div 4 + (if Suc k mod 4 \<noteq> 3 then 1 else 0)"
    using Suc.IH last by simp
  also have "\<dots> = Suc k - (Suc k + 1) div 4"
    by (rule quarter_step[symmetric])
  finally show ?case .
qed

lemma share_3_1_bounds:
  fixes k d :: nat
  assumes d1: "4 * d \<le> k + 1" and d2: "k + 1 < 4 * d + 4" and "0 < k"
  shows "3 / 4 - 1 / real k \<le> (real k - real d) / real k \<and> (real k - real d) / real k \<le> 3 / 4 + 1 / real k"
proof -
  have "real (4 * d) \<le> real (k + 1)" using d1 by (rule of_nat_mono)
  then have r1: "4 * real d \<le> real k + 1" by simp
  have "real (k + 1) < real (4 * d + 4)" using d2 by (simp only: of_nat_less_iff)
  then have r2: "real k + 1 < 4 * real d + 4" by simp
  have k: "0 < real k" using assms(3) by simp
  have y: "0 \<le> 1 / real k" by simp
  have "(4 * real d) / real k \<le> (real k + 1) / real k"
    using r1 k by (simp add: divide_right_mono)
  then have e1: "4 * (real d / real k) \<le> 1 + 1 / real k"
    using k by (simp add: add_divide_distrib)
  have "(real k + 1) / real k < (4 * real d + 4) / real k"
    using r2 k by (simp add: divide_strict_right_mono)
  then have e2: "1 + 1 / real k < 4 * (real d / real k) + 4 * (1 / real k)"
    using k by (simp add: add_divide_distrib)
  have s: "(real k - real d) / real k = 1 - real d / real k"
    using k by (simp add: diff_divide_distrib)
  show ?thesis
    unfolding s using e1 e2 y by linarith
qed

text \<open>
  The spec's example, weights 3 and 1: the sum of the weights divides \<open>2 ^ 32\<close>, the wrap
  of the cursor does no harm, and the share of the first backend converges to \<open>3 / 4\<close>.
\<close>

lemma Weighted_share_3_1_converges:
  "share [backend_with True 3 0, backend_with True 1 0] (NewWeightedBalancer [0, 1]) 0
     \<longlonglongrightarrow> 3 / 4"
proof (rule real_tendsto_sandwich)
  let ?share = "share [backend_with True 3 0, backend_with True 1 0] (NewWeightedBalancer [0, 1]) 0"
  have bounds: "3 / 4 - 1 / real k \<le> ?share k \<and> ?share k \<le> 3 / 4 + 1 / real k" if "0 < k" for k
  proof -
    define d where "d = (k + 1) div 4"
    have d1: "4 * d \<le> k + 1" and d2: "k + 1 < 4 * d + 4" and d3: "d \<le> k"
      unfolding d_def by linarith+
    have "?share k = real (k - d) / real k"
      by (simp only: share_def weights_3_1_hits d_def)
    also have "\<dots> = (real k - real d) / real k"
      using d3 by (simp add: of_nat_diff)
    finally have s: "?share k = (real k - real d) / real k" .
    show ?thesis
      unfolding s using d1 d2 that by (rule share_3_1_bounds)
  qed
  show "eventually (\<lambda>k. 3 / 4 - 1 / real k \<le> ?share k) sequentially"
    unfolding eventually_sequentially using bounds by (intro exI[of _ 1]) auto
  show "eventually (\<lambda>k. ?share k \<le> 3 / 4 + 1 / real k) sequentially"
    unfolding eventually_sequentially using bounds by (intro exI[of _ 1]) auto
  have "(\<lambda>k. 3 / 4 - 1 / real k) \<longlonglongrightarrow> 3 / 4 - 0"
    by (intro tendsto_diff tendsto_const lim_1_over_n)
  then show "(\<lambda>k. 3 / 4 - 1 / real k) \<longlonglongrightarrow> 3 / 4" by simp
  have "(\<lambda>k. 3 / 4 + 1 / real k) \<longlonglongrightarrow> 3 / 4 + 0"
    by (intro tendsto_add tendsto_const lim_1_over_n)
  then show "(\<lambda>k. 3 / 4 + 1 / real k) \<longlonglongrightarrow> 3 / 4" by simp
qed

end
